theory Spec2Isabelle
  imports Main "HOL-Library.Word"
begin

unbundle bit_operations_syntax

section \<open>Stripe lock index\<close>

text \<open>The number of stripe locks (\<open>const numMutexes = 100\<close>).\<close>

definition numMutexes :: nat where
  "numMutexes = 100"

datatype error = ErrIO | ErrEOF | ErrSyntax | ErrRange | ErrNegativeCount | ErrHash

text \<open>
  The 32-bit FNV-1 hash of the standard library (\<open>fnv.New32\<close>): the state starts at the
  offset basis; \<open>Write\<close> multiplies by the prime and xors each byte in, and reports the
  number of bytes it consumed together with a nil error.
\<close>

definition fnvOffset32 :: "32 word" where
  "fnvOffset32 = 2166136261"

definition fnvPrime32 :: "32 word" where
  "fnvPrime32 = 16777619"

definition fnvWrite :: "32 word \<Rightarrow> string \<Rightarrow> 32 word \<times> nat \<times> error option" where
  "fnvWrite h bs = (foldl (\<lambda>acc c. (acc * fnvPrime32) XOR word_of_nat (of_char c)) h bs, length bs, None)"

definition bucketIdToMutexIndex :: "string \<Rightarrow> error + 32 word" where
  "bucketIdToMutexIndex bucketId =
     (case fnvWrite fnvOffset32 bucketId of (f, n, err) \<Rightarrow>
        if n < length bucketId then Inl ErrHash
        else if err \<noteq> None then Inl ErrHash
        else Inr (f mod word_of_nat numMutexes))"

section \<open>Data model\<close>

text \<open>
  Pointers to \<open>objectMetadata\<close> are addresses into an explicit heap; \<open>None\<close> is the nil
  pointer. The field \<open>size\<close> of the source is called \<open>size'\<close> here.
\<close>

type_synonym addr = nat

record objectMetadata =
  offset :: int
  size' :: int
  metaSize :: int
  prev :: "addr option"
  "next" :: "addr option"

record bucketMetadata =
  filePath :: string
  muIndex :: "32 word"
  lastObject :: "addr option"
  objects :: "string \<rightharpoonup> addr"

text \<open>
  The engine together with what it acts on: the \<open>FileStore\<close> fields \<open>storePath\<close> and
  \<open>buckets\<close>, the heap holding every \<open>objectMetadata\<close> node with its allocation
  pointer, and the files of the storage directory (path to content). The mutexes are not
  part of the model: operations are taken one at a time.
\<close>

record world =
  storePath :: string
  buckets :: "string \<rightharpoonup> bucketMetadata"
  heap :: "addr \<Rightarrow> objectMetadata"
  nextAddr :: addr
  disk :: "string \<rightharpoonup> string"

text \<open>
  A Go byte slice: \<open>None\<close> is the nil slice, \<open>Some bs\<close> a non-nil slice with the
  bytes \<open>bs\<close> (possibly none).
\<close>

type_synonym bytes = "string option"

definition len :: "bytes \<Rightarrow> nat" where
  "len obj = (case obj of None \<Rightarrow> 0 | Some bs \<Rightarrow> length bs)"

definition contents :: "bytes \<Rightarrow> string" where
  "contents obj = (case obj of None \<Rightarrow> [] | Some bs \<Rightarrow> bs)"

text \<open>
  The calls to the operating system that can fail. An environment says which of them
  fail; a failing call returns an error and leaves the files as they were.
\<close>

datatype io_call =
  StatDir | Glob | OpenCreate | TempFile | OpenBucket | CopyAll | Stat | WriteMeta | WriteObj
  | WriteSep | CopyPrefix | CopyHeader | SeekRest | CopyRest | Rename | Remove | ReadAt

type_synonym env = "io_call \<Rightarrow> bool"

definition noFault :: env where
  "noFault = (\<lambda>c. False)"

text \<open>How a call ends: it returns, it panics, or a loop in it never ends.\<close>

datatype 'a outcome = Returns 'a | Panics | Diverges

section \<open>Record codec\<close>

definition separator :: char where
  "separator = CHR 0x0A"

definition digitChar :: "nat \<Rightarrow> char" where
  "digitChar d = ''0123456789'' ! d"

text \<open>The decimal text of a length, as \<open>%d\<close> prints it.\<close>

fun itoa :: "nat \<Rightarrow> string" where
  "itoa n = (if n < 10 then [digitChar n] else itoa (n div 10) @ [digitChar (n mod 10)])"

declare itoa.simps [simp del]

text \<open>
  \<open>path.Join\<close> of a cleaned directory and a file name that has no separator in it.
\<close>

definition pathJoin :: "string \<Rightarrow> string \<Rightarrow> string" where
  "pathJoin dir name =
     (if dir = ''.'' then name else if dir = ''/'' then ''/'' @ name else dir @ ''/'' @ name)"

text \<open>
  \<open>appendObjectToBucketFile\<close>: the file is given by its content and returned with the
  record written at its end.
\<close>

definition appendObjectToBucketFile ::
  "env \<Rightarrow> bytes \<Rightarrow> string \<Rightarrow> string \<Rightarrow> int \<Rightarrow> error + (string \<times> int \<times> int \<times> int)" where
  "appendObjectToBucketFile env obj objId file offs =
     (if offs < 0 \<and> env Stat then Inl ErrIO
      else
        let offs' = (if offs < 0 then int (length file) else offs);
            metaStr = objId @ '' '' @ itoa (len obj) @ '' ''
        in if env WriteMeta then Inl ErrIO
           else if env WriteObj then Inl ErrIO
           else if env WriteSep then Inl ErrIO
           else Inr (file @ metaStr @ contents obj @ [separator],
                     offs', int (length metaStr) - 1, int (len obj)))"

text \<open>
  \<open>io.CopyN\<close> from a file read at position \<open>pos\<close>: the bytes copied and the new
  position, or \<open>None\<close> when the source ends early. A count that is not positive copies
  nothing and succeeds.
\<close>

definition copyN :: "string \<Rightarrow> nat \<Rightarrow> int \<Rightarrow> (string \<times> nat) option" where
  "copyN src pos n =
     (if n \<le> 0 then Some ([], pos)
      else if pos + nat n \<le> length src then Some (take (nat n) (drop pos src), pos + nat n)
      else None)"

text \<open>
  The middle of \<open>replaceObjectInBucketFile\<close>: what is written in place of the old
  record. Returns the temporary file, the read position in the bucket file and the new
  metadata size.
\<close>

definition writeReplacement ::
  "env \<Rightarrow> bytes \<Rightarrow> string \<Rightarrow> objectMetadata \<Rightarrow> string \<Rightarrow> nat \<Rightarrow> string
     \<Rightarrow> error + (string \<times> nat \<times> int)" where
  "writeReplacement env obj objId objMeta bf pos file =
     (if obj \<noteq> None then
        if int (len obj) \<noteq> size' objMeta then
          (case appendObjectToBucketFile env obj objId file (offset objMeta) of
             Inl e \<Rightarrow> Inl e
           | Inr (file', _, newMetaSize, _) \<Rightarrow> Inr (file', pos, newMetaSize))
        else if env CopyHeader then Inl ErrIO
        else
          (case copyN bf pos (metaSize objMeta + 1) of
             None \<Rightarrow> Inl ErrEOF
           | Some (hdr, pos') \<Rightarrow>
               if env WriteObj then Inl ErrIO
               else if env WriteSep then Inl ErrIO
               else Inr (file @ hdr @ contents obj @ [separator], pos', 0))
      else Inr (file, pos, 0))"

definition replaceObjectInBucketFile ::
  "env \<Rightarrow> bytes \<Rightarrow> string \<Rightarrow> objectMetadata \<Rightarrow> string \<Rightarrow> (string \<rightharpoonup> string) \<Rightarrow> string
     \<Rightarrow> error + (string \<times> int \<times> int)" where
  "replaceObjectInBucketFile env obj objId objMeta bfName dsk file =
     (if env OpenBucket then Inl ErrIO
      else
        (case dsk bfName of
           None \<Rightarrow> Inl ErrIO
         | Some bf \<Rightarrow>
             if env CopyPrefix then Inl ErrIO
             else
               (case copyN bf 0 (offset objMeta) of
                  None \<Rightarrow> Inl ErrEOF
                | Some (firstHalf, pos) \<Rightarrow>
                    (case writeReplacement env obj objId objMeta bf pos (file @ firstHalf) of
                       Inl e \<Rightarrow> Inl e
                     | Inr (file', pos', newMetaSize) \<Rightarrow>
                         let offs = offset objMeta + metaSize objMeta + size' objMeta + 2
                         in if 0 < offs \<and> env SeekRest then Inl ErrIO
                            else if env CopyRest then Inl ErrIO
                            else Inr (file' @ drop (if 0 < offs then nat offs else pos') bf,
                                      newMetaSize, int (len obj))))))"

section \<open>Store, Retrieve, Delete\<close>

text \<open>
  The loop \<open>for nextObj := p; nextObj != nil; nextObj = nextObj.next\<close> adding \<open>d\<close> to
  every offset. On a cyclic chain it does not end: the result is \<open>None\<close>.
\<close>

partial_function (option) shiftOffsets ::
  "(addr \<Rightarrow> objectMetadata) \<Rightarrow> addr option \<Rightarrow> int \<Rightarrow> (addr \<Rightarrow> objectMetadata) option" where
  "shiftOffsets h p d =
     (case p of
        None \<Rightarrow> Some h
      | Some a \<Rightarrow> shiftOffsets (h(a := (h a)\<lparr>offset := offset (h a) + d\<rparr>)) (next (h a)) d)"

declare shiftOffsets.simps [code]

text \<open>
  \<open>Store\<close> from the point where the bucket's metadata is at hand. The temporary file is
  a local value: it reaches the disk only by the rename, and is removed otherwise.
\<close>

definition storeObject ::
  "env \<Rightarrow> bytes \<Rightarrow> string \<Rightarrow> string \<Rightarrow> bool \<Rightarrow> bucketMetadata \<Rightarrow> world
     \<Rightarrow> (world \<times> bool \<times> error option) outcome" where
  "storeObject env obj objId bucketId bucketOk bucketMeta w =
     (if \<not> unat (muIndex bucketMeta) < numMutexes then Panics
      else if env TempFile then Returns (w, False, Some ErrIO)
      else
        (case objects bucketMeta objId of
           None \<Rightarrow>
             (case (if bucketOk then
                      (if env OpenBucket then Inl ErrIO
                       else case disk w (filePath bucketMeta) of
                              None \<Rightarrow> Inl ErrIO
                            | Some bf \<Rightarrow> if env CopyAll then Inl ErrIO else Inr bf)
                    else Inr []) of
                Inl e \<Rightarrow> Returns (w, False, Some e)
              | Inr tmpFile \<Rightarrow>
                  (case appendObjectToBucketFile env obj objId tmpFile (- 1) of
                     Inl e \<Rightarrow> Returns (w, False, Some e)
                   | Inr (tmpFile', offs, msz, sz) \<Rightarrow>
                       if env Rename then Returns (w, False, Some ErrIO)
                       else
                         let objMeta = \<lparr>offset = offs, size' = sz, metaSize = msz,
                                        prev = lastObject bucketMeta, next = None\<rparr>;
                             a = nextAddr w;
                             h1 = (heap w)(a := objMeta);
                             h2 = (case lastObject bucketMeta of
                                     None \<Rightarrow> h1
                                   | Some l \<Rightarrow> h1(l := (h1 l)\<lparr>next := Some a\<rparr>))
                         in Returns
                              (w\<lparr>disk := (disk w)(filePath bucketMeta \<mapsto> tmpFile'),
                                 heap := h2, nextAddr := Suc a,
                                 buckets := (buckets w)(bucketId \<mapsto>
                                   bucketMeta\<lparr>objects := (objects bucketMeta)(objId \<mapsto> a),
                                              lastObject := Some a\<rparr>)\<rparr>,
                               False, None)))
         | Some a \<Rightarrow>
             (case replaceObjectInBucketFile env obj objId (heap w a) (filePath bucketMeta)
                     (disk w) [] of
                Inl e \<Rightarrow> Returns (w, False, Some e)
              | Inr (tmpFile, newObjMetaSize, newObjSize) \<Rightarrow>
                  if env Rename then Returns (w, False, Some ErrIO)
                  else if newObjSize \<noteq> size' (heap w a) then
                    (case shiftOffsets (heap w) (next (heap w a))
                            (newObjMetaSize + newObjSize - metaSize (heap w a) - size' (heap w a)) of
                       None \<Rightarrow> Diverges
                     | Some h1 \<Rightarrow>
                         Returns
                           (w\<lparr>disk := (disk w)(filePath bucketMeta \<mapsto> tmpFile),
                              heap := h1(a := (h1 a)\<lparr>metaSize := newObjMetaSize,
                                                      size' := newObjSize\<rparr>)\<rparr>,
                            True, None))
                  else Returns (w\<lparr>disk := (disk w)(filePath bucketMeta \<mapsto> tmpFile)\<rparr>,
                                True, None))))"

definition Store ::
  "env \<Rightarrow> bytes \<Rightarrow> string \<Rightarrow> string \<Rightarrow> world \<Rightarrow> (world \<times> bool \<times> error option) outcome" where
  "Store env obj objId bucketId w =
     (case buckets w bucketId of
        None \<Rightarrow>
          (case bucketIdToMutexIndex bucketId of
             Inl e \<Rightarrow> Returns (w, False, Some e)
           | Inr mu \<Rightarrow>
               let bucketFilePath = pathJoin (storePath w) (bucketId @ ''.dat'');
                   bucketMeta = \<lparr>filePath = bucketFilePath, muIndex = mu, lastObject = None,
                                  objects = Map.empty\<rparr>;
                   w1 = w\<lparr>buckets := (buckets w)(bucketId \<mapsto> bucketMeta)\<rparr>
               in if env OpenCreate then Returns (w1, False, Some ErrIO)
                  else storeObject env obj objId bucketId False bucketMeta
                         (w1\<lparr>disk := (disk w1)(bucketFilePath \<mapsto> [])\<rparr>))
      | Some bucketMeta \<Rightarrow> storeObject env obj objId bucketId True bucketMeta w)"

text \<open>
  \<open>Retrieve\<close> reads only. \<open>make\<close> panics on a negative length; \<open>ReadAt\<close> rejects a
  negative offset and reports the end of the file when bytes are missing, unless no byte
  is asked for.
\<close>

definition Retrieve ::
  "env \<Rightarrow> string \<Rightarrow> string \<Rightarrow> world \<Rightarrow> (bytes \<times> bool \<times> error option) outcome" where
  "Retrieve env objId bucketId w =
     (case buckets w bucketId of
        None \<Rightarrow> Returns (None, False, None)
      | Some bucketMeta \<Rightarrow>
          if \<not> unat (muIndex bucketMeta) < numMutexes then Panics
          else
            (case objects bucketMeta objId of
               None \<Rightarrow> Returns (None, False, None)
             | Some a \<Rightarrow>
                 if env OpenBucket then Returns (None, False, Some ErrIO)
                 else
                   (case disk w (filePath bucketMeta) of
                      None \<Rightarrow> Returns (None, False, Some ErrIO)
                    | Some bf \<Rightarrow>
                        let objMeta = heap w a;
                            pos = offset objMeta + metaSize objMeta + 1
                        in if size' objMeta < 0 then Panics
                           else if env ReadAt then Returns (None, False, Some ErrIO)
                           else if pos < 0 then Returns (None, False, Some ErrIO)
                           else if 0 < size' objMeta
                                   \<and> int (length bf) < pos + size' objMeta
                             then Returns (None, False, Some ErrEOF)
                           else Returns (Some (take (nat (size' objMeta)) (drop (nat pos) bf)),
                                         True, None))))"

text \<open>
  The metadata update at the end of \<open>Delete\<close>: the node \<open>a\<close> of \<open>objId\<close> is taken out of
  the map and of the chain, and the nodes after it move down.
\<close>

definition unlinkObject ::
  "string \<Rightarrow> string \<Rightarrow> bucketMetadata \<Rightarrow> addr \<Rightarrow> world \<Rightarrow> (world \<times> bool \<times> error option) outcome" where
  "unlinkObject objId bucketId bucketMeta a w =
     (let objs = (objects bucketMeta)(objId := None);
          h0 = heap w;
          h1 = (case prev (h0 a) of
                  None \<Rightarrow> h0
                | Some p \<Rightarrow> h0(p := (h0 p)\<lparr>next := next (h0 a)\<rparr>))
      in case next (h1 a) of
           None \<Rightarrow>
             Returns
               (w\<lparr>heap := h1,
                  buckets := (buckets w)(bucketId \<mapsto>
                    bucketMeta\<lparr>objects := objs, lastObject := prev (h1 a)\<rparr>)\<rparr>,
                True, None)
         | Some n \<Rightarrow>
             (let h2 = h1(n := (h1 n)\<lparr>prev := prev (h1 a)\<rparr>)
              in case shiftOffsets h2 (next (h2 a)) (- (metaSize (h2 a) + size' (h2 a) + 2)) of
                   None \<Rightarrow> Diverges
                 | Some h3 \<Rightarrow>
                     Returns
                       (w\<lparr>heap := h3,
                          buckets := (buckets w)(bucketId \<mapsto> bucketMeta\<lparr>objects := objs\<rparr>)\<rparr>,
                        True, None)))"

definition Delete ::
  "env \<Rightarrow> string \<Rightarrow> string \<Rightarrow> world \<Rightarrow> (world \<times> bool \<times> error option) outcome" where
  "Delete env objId bucketId w =
     (case buckets w bucketId of
        None \<Rightarrow> Returns (w, False, None)
      | Some bucketMeta \<Rightarrow>
          if \<not> unat (muIndex bucketMeta) < numMutexes then Panics
          else
            (case objects bucketMeta objId of
               None \<Rightarrow> Returns (w, False, None)
             | Some a \<Rightarrow>
                 if card (dom (objects bucketMeta)) = 1 then
                   (if env Remove \<or> disk w (filePath bucketMeta) = None
                      then Returns (w, True, None)
                    else Returns (w\<lparr>disk := (disk w)(filePath bucketMeta := None),
                                     buckets := (buckets w)(bucketId := None)\<rparr>, True, None))
                 else if env TempFile then Returns (w, False, Some ErrIO)
                 else
                   (case replaceObjectInBucketFile env None objId (heap w a)
                           (filePath bucketMeta) (disk w) [] of
                      Inl e \<Rightarrow> Returns (w, False, Some e)
                    | Inr (tmpFile, _, _) \<Rightarrow>
                        if env Rename then Returns (w, False, Some ErrIO)
                        else unlinkObject objId bucketId bucketMeta a
                               (w\<lparr>disk := (disk w)(filePath bucketMeta \<mapsto> tmpFile)\<rparr>))))"

section \<open>Bootstrap loader\<close>

text \<open>
  \<open>bufio.Reader.ReadString\<close> on what is left of the file: the bytes up to and including
  the delimiter; when the delimiter never comes, every byte left together with the
  end-of-file error.
\<close>

definition readString :: "char \<Rightarrow> string \<Rightarrow> string \<times> string \<times> error option" where
  "readString delim r =
     (if delim \<in> set r
        then (takeWhile (\<lambda>c. c \<noteq> delim) r @ [delim], tl (dropWhile (\<lambda>c. c \<noteq> delim) r), None)
      else (r, [], Some ErrEOF))"

text \<open>\<open>bufio.Reader.Discard\<close>.\<close>

definition discard :: "int \<Rightarrow> string \<Rightarrow> error + string" where
  "discard n r =
     (if n < 0 then Inl ErrNegativeCount
      else if n = 0 then Inr r
      else if nat n \<le> length r then Inr (drop (nat n) r)
      else Inl ErrEOF)"

definition isDigit :: "char \<Rightarrow> bool" where
  "isDigit c = (c \<in> set ''0123456789'')"

definition digitVal :: "char \<Rightarrow> nat" where
  "digitVal c = of_char c - 48"

text \<open>
  \<open>strconv.ParseInt(s, 10, 64)\<close>: an optional sign, then decimal digits read from the
  left; a value outside 64 bits is a range error.
\<close>

fun parseDigits :: "nat \<Rightarrow> string \<Rightarrow> error + nat" where
  "parseDigits acc [] = Inr acc"
| "parseDigits acc (c # cs) =
     (if \<not> isDigit c then Inl ErrSyntax
      else if 2 ^ 64 \<le> acc * 10 + digitVal c then Inl ErrRange
      else parseDigits (acc * 10 + digitVal c) cs)"

definition parseUint :: "string \<Rightarrow> error + nat" where
  "parseUint s = (if s = [] then Inl ErrSyntax else parseDigits 0 s)"

definition parseInt :: "string \<Rightarrow> error + int" where
  "parseInt s =
     (if s = [] then Inl ErrSyntax
      else
        let neg = (hd s = CHR ''-'');
            s' = (if hd s = CHR ''+'' \<or> hd s = CHR ''-'' then tl s else s)
        in case parseUint s' of
             Inl e \<Rightarrow> Inl e
           | Inr un \<Rightarrow>
               if \<not> neg \<and> 2 ^ 63 \<le> un then Inl ErrRange
               else if neg \<and> 2 ^ 63 < un then Inl ErrRange
               else Inr (if neg then - int un else int un))"

text \<open>The 64-bit addition \<open>objSize + 1\<close>, which wraps.\<close>

definition add64 :: "int \<Rightarrow> int \<Rightarrow> int" where
  "add64 x y = sint (word_of_int (x + y) :: 64 word)"

text \<open>
  The loop of \<open>getObjectsMetadata\<close> over what is left of the file. Offsets are sums of
  lengths of parts of one file and are kept as integers.
\<close>

function getObjectsLoop ::
  "string \<Rightarrow> (string \<rightharpoonup> addr) \<Rightarrow> int \<Rightarrow> addr option \<Rightarrow> (addr \<Rightarrow> objectMetadata) \<Rightarrow> addr
     \<Rightarrow> error + ((string \<rightharpoonup> addr) \<times> addr option \<times> (addr \<Rightarrow> objectMetadata) \<times> addr)" where
  "getObjectsLoop r objectsMeta objOffset lastObjMeta h na =
     (case readString (CHR '' '') r of
        (objId0, r1, Some e) \<Rightarrow>
          if e = ErrEOF then Inr (objectsMeta, lastObjMeta, h, na) else Inl e
      | (objId0, r1, None) \<Rightarrow>
          (case readString (CHR '' '') r1 of
             (objSizeStr0, r2, Some e) \<Rightarrow> Inl e
           | (objSizeStr0, r2, None) \<Rightarrow>
               (case parseInt (butlast objSizeStr0) of
                  Inl e \<Rightarrow> Inl e
                | Inr objSize \<Rightarrow>
                    (case discard (add64 objSize 1) r2 of
                       Inl e \<Rightarrow> Inl e
                     | Inr r3 \<Rightarrow>
                         let objId = butlast objId0;
                             objMetaSize = int (length objId + length (butlast objSizeStr0)) + 1;
                             h1 = h(na := \<lparr>offset = objOffset, size' = objSize,
                                            metaSize = objMetaSize, prev = lastObjMeta,
                                            next = None\<rparr>);
                             h2 = (case lastObjMeta of
                                     None \<Rightarrow> h1
                                   | Some l \<Rightarrow> h1(l := (h1 l)\<lparr>next := Some na\<rparr>))
                         in getObjectsLoop r3 (objectsMeta(objId \<mapsto> na))
                              (objOffset + objMetaSize + objSize + 2) (Some na) h2 (Suc na)))))"
  by pat_completeness auto

termination getObjectsLoop
proof (relation "measure (\<lambda>(r, _). length r)", goal_cases)
  case 1
  show ?case by simp
next
  case (2 r objectsMeta objOffset lastObjMeta h na x1 x2 r1 x3 x4 x5 r2 x6 objSize r3)
  have shorter: "length b < length a" if "(x, b, None) = readString d a" for a b x d
  proof -
    from that have m: "d \<in> set a" and b: "b = tl (dropWhile (\<lambda>c. c \<noteq> d) a)"
      by (auto simp: readString_def split: if_splits)
    from m have "dropWhile (\<lambda>c. c \<noteq> d) a \<noteq> []"
      by (simp add: dropWhile_eq_Nil_conv)
    then have "length b < length (dropWhile (\<lambda>c. c \<noteq> d) a)"
      using b by simp
    also have "\<dots> \<le> length a"
      by (rule length_dropWhile_le)
    finally show ?thesis .
  qed
  from 2 have "length r1 < length r" and "length r2 < length r1"
    by (auto dest: shorter)
  moreover from 2 have "length r3 \<le> length r2"
    by (auto simp: discard_def split: if_splits)
  ultimately show ?case by simp
qed

declare getObjectsLoop.simps [simp del]

definition getObjectsMetadata ::
  "string \<Rightarrow> (addr \<Rightarrow> objectMetadata) \<Rightarrow> addr
     \<Rightarrow> error + ((string \<rightharpoonup> addr) \<times> addr option \<times> (addr \<Rightarrow> objectMetadata) \<times> addr)" where
  "getObjectsMetadata bf h na = getObjectsLoop bf Map.empty 0 None h na"

text \<open>
  The bucket identifier of a bucket file: the base name of the path without its last
  extension.
\<close>

definition bucketIdOfPath :: "string \<Rightarrow> string" where
  "bucketIdOfPath bfPath =
     (let base = rev (takeWhile (\<lambda>c. c \<noteq> CHR ''/'') (rev bfPath))
      in rev (tl (dropWhile (\<lambda>c. c \<noteq> CHR ''.'') (rev base))))"

text \<open>
  The loop of \<open>loadDataFromDisk\<close> over the bucket files that \<open>filepath.Glob\<close> lists.
\<close>

fun loadBucketFiles :: "env \<Rightarrow> string list \<Rightarrow> world \<Rightarrow> error + world" where
  "loadBucketFiles env [] w = Inr w"
| "loadBucketFiles env (bfPath # bucketFiles) w =
     (case bucketIdToMutexIndex (bucketIdOfPath bfPath) of
        Inl e \<Rightarrow> Inl e
      | Inr mu \<Rightarrow>
          if env OpenBucket then Inl ErrIO
          else
            (case disk w bfPath of
               None \<Rightarrow> Inl ErrIO
             | Some bf \<Rightarrow>
                 (case getObjectsMetadata bf (heap w) (nextAddr w) of
                    Inl e \<Rightarrow> Inl e
                  | Inr (objectsMeta, lastObj, h, na) \<Rightarrow>
                      if 0 < card (dom objectsMeta) then
                        loadBucketFiles env bucketFiles
                          (w\<lparr>heap := h, nextAddr := na,
                             buckets := (buckets w)(bucketIdOfPath bfPath \<mapsto>
                               \<lparr>filePath = bfPath, muIndex = mu, lastObject = lastObj,
                                  objects = objectsMeta\<rparr>)\<rparr>)
                      else
                        loadBucketFiles env bucketFiles
                          (w\<lparr>heap := h, nextAddr := na,
                             disk := (if env Remove then disk w
                                      else (disk w)(bfPath := None))\<rparr>))))"

definition loadDataFromDisk :: "env \<Rightarrow> string list \<Rightarrow> world \<Rightarrow> error + world" where
  "loadDataFromDisk env bucketFiles w =
     (if env Glob then Inl ErrIO else loadBucketFiles env bucketFiles (w\<lparr>buckets := Map.empty\<rparr>))"

text \<open>The heap before any node is allocated holds this node everywhere.\<close>

definition emptyNode :: objectMetadata where
  "emptyNode = \<lparr>offset = 0, size' = 0, metaSize = 0, prev = None, next = None\<rparr>"

text \<open>The store on an empty folder.\<close>

definition emptyStore :: "string \<Rightarrow> world" where
  "emptyStore path =
     \<lparr>storePath = path, buckets = Map.empty, heap = (\<lambda>a. emptyNode), nextAddr = 0,
        disk = Map.empty\<rparr>"

text \<open>
  \<open>NewStore\<close> on a cleaned store path: \<open>dirOk\<close> says whether the folder exists,
  \<open>bucketFiles\<close> is the list of its \<open>.dat\<close> files, \<open>dsk\<close> the content of its files.
\<close>

definition NewStore ::
  "env \<Rightarrow> string \<Rightarrow> bool \<Rightarrow> string list \<Rightarrow> (string \<rightharpoonup> string) \<Rightarrow> error + world" where
  "NewStore env path dirOk bucketFiles dsk =
     (if env StatDir \<or> \<not> dirOk then Inl ErrIO
      else loadDataFromDisk env bucketFiles
             ((emptyStore path)\<lparr>disk := dsk\<rparr>))"

section \<open>Operations in sequence\<close>

text \<open>
  A \<open>Store\<close> of a byte sequence or a \<open>Delete\<close>, and a run of such operations that
  stops with \<open>None\<close> at the first one that does not return a nil error.
\<close>

datatype operation = OpStore string string string | OpDelete string string

fun exec :: "env \<Rightarrow> operation \<Rightarrow> world \<Rightarrow> (world \<times> bool \<times> error option) outcome" where
  "exec env (OpStore p objId bucketId) w = Store env (Some p) objId bucketId w"
| "exec env (OpDelete objId bucketId) w = Delete env objId bucketId w"

fun run :: "env \<Rightarrow> operation list \<Rightarrow> world \<Rightarrow> world option" where
  "run env [] w = Some w"
| "run env (op # ops) w =
     (case exec env op w of
        Returns (w', _, None) \<Rightarrow> run env ops w'
      | _ \<Rightarrow> None)"

section \<open>Consistency of metadata and files\<close>



text \<open>A record of the bucket file, and the sizes the metadata keeps of it.\<close>

definition encodeRecord :: "string \<Rightarrow> string \<Rightarrow> string" where
  "encodeRecord objId p = objId @ '' '' @ itoa (length p) @ '' '' @ p @ [separator]"

definition headerSize :: "string \<Rightarrow> nat \<Rightarrow> nat" where
  "headerSize objId n = length objId + 1 + length (itoa n)"

definition recordSize :: "string \<Rightarrow> nat \<Rightarrow> nat" where
  "recordSize objId n = headerSize objId n + n + 2"

text \<open>
  The content of a bucket in physical order: for each record the address of its node,
  its identifier and its payload.
\<close>

type_synonym entry = "addr \<times> string \<times> string"

fun fileOf :: "entry list \<Rightarrow> string" where
  "fileOf [] = []"
| "fileOf ((a, objId, p) # es) = encodeRecord objId p @ fileOf es"

definition firstAddr :: "entry list \<Rightarrow> addr option \<Rightarrow> addr option" where
  "firstAddr es nx = (case es of [] \<Rightarrow> nx | e # _ \<Rightarrow> Some (fst e))"

definition lastAddr :: "entry list \<Rightarrow> addr option \<Rightarrow> addr option" where
  "lastAddr es pv = (if es = [] then pv else Some (fst (last es)))"

text \<open>
  \<open>seg h pv offs es nx\<close>: the nodes of \<open>es\<close> form a stretch of a chain in the heap \<open>h\<close>
  that starts at offset \<open>offs\<close>; the first node points back to \<open>pv\<close>, the last one on to
  \<open>nx\<close>, and each node holds the offset and the sizes of its record.
\<close>

fun seg ::
  "(addr \<Rightarrow> objectMetadata) \<Rightarrow> addr option \<Rightarrow> int \<Rightarrow> entry list \<Rightarrow> addr option \<Rightarrow> bool" where
  "seg h pv offs [] nx = True"
| "seg h pv offs ((a, objId, p) # es) nx =
     (offset (h a) = offs \<and> metaSize (h a) = int (headerSize objId (length p))
      \<and> size' (h a) = int (length p) \<and> prev (h a) = pv \<and> next (h a) = firstAddr es nx
      \<and> seg h (Some a) (offs + int (recordSize objId (length p))) es nx)"

text \<open>
  A bucket's metadata describes the entries \<open>es\<close>: the map sends each identifier to its
  node, the nodes form the whole chain, and \<open>lastObject\<close> is its end.
\<close>

definition bucketRep :: "(addr \<Rightarrow> objectMetadata) \<Rightarrow> bucketMetadata \<Rightarrow> entry list \<Rightarrow> bool" where
  "bucketRep h bm es =
     (distinct (map fst es) \<and> distinct (map (\<lambda>e. fst (snd e)) es)
      \<and> objects bm = map_of (map (\<lambda>e. (fst (snd e), fst e)) es)
      \<and> lastObject bm = lastAddr es None
      \<and> seg h None 0 es None)"

text \<open>
  \<open>describes P E w\<close>: every registered bucket \<open>b\<close> has the entries \<open>E b\<close>, which its
  metadata describes and which its file is the encoding of; the nodes of two buckets are
  apart, every node lies below the allocation pointer, every bucket has the file path
  and a stripe index that \<open>Store\<close> gives it, and \<open>P\<close> holds of every identifier and
  payload. The store is consistent when some \<open>E\<close> describes it.
\<close>

definition describes ::
  "(string \<Rightarrow> string \<Rightarrow> bool) \<Rightarrow> (string \<Rightarrow> entry list) \<Rightarrow> world \<Rightarrow> bool" where
  "describes P E w =
     ((\<forall>b bm. buckets w b = Some bm \<longrightarrow>
          bucketRep (heap w) bm (E b)
          \<and> disk w (filePath bm) = Some (fileOf (E b))
          \<and> filePath bm = pathJoin (storePath w) (b @ ''.dat'')
          \<and> unat (muIndex bm) < numMutexes
          \<and> (\<forall>e \<in> set (E b). fst e < nextAddr w \<and> P (fst (snd e)) (snd (snd e))))
      \<and> (\<forall>b b'. b \<noteq> b' \<longrightarrow> buckets w b \<noteq> None \<longrightarrow> buckets w b' \<noteq> None \<longrightarrow>
            fst ` set (E b) \<inter> fst ` set (E b') = {}))"

definition consistentP :: "(string \<Rightarrow> string \<Rightarrow> bool) \<Rightarrow> world \<Rightarrow> bool" where
  "consistentP P w = (\<exists>E. describes P E w)"

definition consistent :: "world \<Rightarrow> bool" where
  "consistent w = consistentP (\<lambda>objId p. True) w"

text \<open>
  The layout invariant of the metadata chain: a node with a next node ends where that
  one starts, and a node with no previous node starts at 0.
\<close>

definition layout :: "world \<Rightarrow> bool" where
  "layout w =
     (\<forall>b bm objId a. buckets w b = Some bm \<longrightarrow> objects bm objId = Some a \<longrightarrow>
        (\<forall>n. next (heap w a) = Some n \<longrightarrow>
           offset (heap w n) = offset (heap w a) + metaSize (heap w a) + size' (heap w a) + 2)
        \<and> (prev (heap w a) = None \<longrightarrow> offset (heap w a) = 0))"

text \<open>The heap after the offset of every node in \<open>A\<close> has moved by \<open>d\<close>.\<close>

definition shiftAll :: "(addr \<Rightarrow> objectMetadata) \<Rightarrow> addr set \<Rightarrow> int \<Rightarrow> addr \<Rightarrow> objectMetadata" where
  "shiftAll h A d = (\<lambda>a. if a \<in> A then (h a)\<lparr>offset := offset (h a) + d\<rparr> else h a)"

section \<open>What the loader rebuilds\<close>



text \<open>
  The entries of a bucket with their nodes at the addresses the loader allocates, from
  \<open>na\<close> on, and the map the loader fills record by record.
\<close>

fun renumber :: "addr \<Rightarrow> entry list \<Rightarrow> entry list" where
  "renumber na [] = []"
| "renumber na ((a, objId, p) # es) = (na, objId, p) # renumber (Suc na) es"



section \<open>Two stores used as examples\<close>

text \<open>
  The store after \<open>Store("hello", "o1", "b1")\<close> on an empty folder, and the store after
  \<open>Store("a", "o1", "b")\<close> and \<open>Store("bbb", "o2", "b")\<close>.
\<close>

definition soleStore :: world where
  "soleStore =
     \<lparr>storePath = ''.'',
        buckets = [''b1'' \<mapsto> \<lparr>filePath = ''b1.dat'', muIndex = 14, lastObject = Some 0,
                               objects = [''o1'' \<mapsto> 0]\<rparr>],
        heap = (\<lambda>a. emptyNode)
                 (0 := \<lparr>offset = 0, size' = 5, metaSize = 4, prev = None, next = None\<rparr>),
        nextAddr = 1,
        disk = [''b1.dat'' \<mapsto> ''o1 5 hello\<newline>'']\<rparr>"

definition exampleStore :: world where
  "exampleStore =
     \<lparr>storePath = ''.'',
        buckets = [''b'' \<mapsto> \<lparr>filePath = ''b.dat'', muIndex = 45, lastObject = Some 1,
                              objects = [''o1'' \<mapsto> 0, ''o2'' \<mapsto> 1]\<rparr>],
        heap = (\<lambda>a. emptyNode)
                 (0 := \<lparr>offset = 0, size' = 1, metaSize = 4, prev = None, next = Some 1\<rparr>,
                  1 := \<lparr>offset = 7, size' = 3, metaSize = 4, prev = Some 0, next = None\<rparr>),
        nextAddr = 2,
        disk = [''b.dat'' \<mapsto> ''o1 1 a\<newline>o2 3 bbb\<newline>'']\<rparr>"

section \<open>Faults\<close>

lemma noFault_False [simp]: "\<not> noFault c"
  by (simp add: noFault_def)

lemma append_noFault:
  "appendObjectToBucketFile env obj objId file offs = Inr r
   \<Longrightarrow> appendObjectToBucketFile noFault obj objId file offs = Inr r"
  by (auto simp: appendObjectToBucketFile_def noFault_def Let_def split: if_splits)

lemma writeReplacement_noFault:
  "writeReplacement env obj objId m bf pos file = Inr r
   \<Longrightarrow> writeReplacement noFault obj objId m bf pos file = Inr r"
  unfolding writeReplacement_def
  by (auto simp: noFault_def appendObjectToBucketFile_def Let_def split: if_splits sum.splits option.splits)

lemma replace_noFault:
  "replaceObjectInBucketFile env obj objId m bfName dsk file = Inr r
   \<Longrightarrow> replaceObjectInBucketFile noFault obj objId m bfName dsk file = Inr r"
  unfolding replaceObjectInBucketFile_def
  apply (simp split: if_splits option.splits prod.splits sum.splits add: writeReplacement_noFault)
  apply (auto simp: noFault_def Let_def split: if_splits dest: writeReplacement_noFault)
  done

lemma storeObject_noFault:
  "storeObject env obj objId bucketId ok bm w = Returns (w', r, None)
   \<Longrightarrow> storeObject noFault obj objId bucketId ok bm w = Returns (w', r, None)"
  unfolding storeObject_def
  apply (simp split: if_splits option.splits prod.splits sum.splits)
  apply (auto simp: noFault_def Let_def split: if_splits dest: replace_noFault append_noFault)
  done

lemma Store_noFault:
  "Store env obj objId bucketId w = Returns (w', r, None)
   \<Longrightarrow> Store noFault obj objId bucketId w = Returns (w', r, None)"
  unfolding Store_def
  by (auto simp: Let_def noFault_def split: if_splits sum.splits option.splits dest: storeObject_noFault)

lemma Delete_noFault:
  "Delete env objId bucketId w = Returns (w', r, None)
   \<Longrightarrow> Delete noFault objId bucketId w = Returns (w', r, None) \<or> (w' = w \<and> r)"
  unfolding Delete_def
  apply (simp split: if_splits option.splits prod.splits sum.splits)
  apply (auto simp: noFault_def Let_def split: if_splits dest: replace_noFault)
  done

section \<open>Records and files\<close>

lemma length_encodeRecord: "length (encodeRecord i p) = recordSize i (length p)"
  by (simp add: encodeRecord_def recordSize_def headerSize_def)

lemma fileOf_append: "fileOf (es1 @ es2) = fileOf es1 @ fileOf es2"
  by (induction es1) auto

section \<open>Chains\<close>

lemma firstAddr_simps [simp]:
  "firstAddr [] nx = nx" "firstAddr (e # es) nx = Some (fst e)"
  by (simp_all add: firstAddr_def)

lemma lastAddr_simps [simp]:
  "lastAddr [] pv = pv" "lastAddr (es @ [e]) pv = Some (fst e)"
  "lastAddr (e # es) pv = lastAddr es (Some (fst e))"
  by (simp_all add: lastAddr_def)

lemma firstAddr_append: "firstAddr (es1 @ es2) nx = firstAddr es1 (firstAddr es2 nx)"
  by (cases es1) auto

lemma lastAddr_append: "lastAddr (es1 @ es2) pv = lastAddr es2 (lastAddr es1 pv)"
  by (simp add: lastAddr_def)

lemma lastAddr_mid [simp]: "lastAddr (es1 @ (a, i, p) # es2) pv = lastAddr es2 (Some a)"
  by (simp add: lastAddr_append)

lemma seg_append:
  "seg h pv offs (es1 @ es2) nx
   \<longleftrightarrow> seg h pv offs es1 (firstAddr es2 nx)
       \<and> seg h (lastAddr es1 pv) (offs + int (length (fileOf es1))) es2 nx"
  by (induction es1 arbitrary: pv offs)
     (auto simp: firstAddr_append length_encodeRecord ac_simps)

lemma seg_cong:
  "(\<And>a. a \<in> fst ` set es \<Longrightarrow> h' a = h a) \<Longrightarrow> seg h' pv offs es nx = seg h pv offs es nx"
  by (induction es arbitrary: pv offs) auto

lemma seg_fun_upd:
  "a \<notin> fst ` set es \<Longrightarrow> seg (h(a := v)) pv offs es nx = seg h pv offs es nx"
  by (rule seg_cong) auto

lemma seg_shiftAll:
  "seg h pv offs es nx \<Longrightarrow> fst ` set es \<subseteq> A \<Longrightarrow> seg (shiftAll h A d) pv (offs + d) es nx"
proof (induction es arbitrary: pv offs)
  case Nil
  then show ?case by simp
next
  case (Cons e es)
  obtain a i p where e: "e = (a, i, p)" by (cases e)
  from Cons.prems e have "seg h (Some a) (offs + int (recordSize i (length p))) es nx"
    and "fst ` set es \<subseteq> A" by auto
  from Cons.IH [OF this]
  have "seg (shiftAll h A d) (Some a) (offs + d + int (recordSize i (length p))) es nx"
    by (simp add: ac_simps)
  with Cons.prems e show ?case by (simp add: shiftAll_def)
qed

lemma shiftOffsets_seg:
  "seg h pv offs es None \<Longrightarrow> distinct (map fst es)
   \<Longrightarrow> shiftOffsets h (firstAddr es None) d = Some (shiftAll h (fst ` set es) d)"
proof (induction es arbitrary: h pv offs)
  case Nil
  then show ?case by (simp add: shiftOffsets.simps shiftAll_def)
next
  case (Cons e es)
  obtain a i p where e: "e = (a, i, p)" by (cases e)
  let ?h = "h(a := (h a)\<lparr>offset := offset (h a) + d\<rparr>)"
  from Cons.prems e have a: "a \<notin> fst ` set es" and nx: "next (h a) = firstAddr es None"
    and sg: "seg h (Some a) (offs + int (recordSize i (length p))) es None" and d: "distinct (map fst es)"
    by auto
  from a have "seg ?h (Some a) (offs + int (recordSize i (length p))) es None = seg h (Some a) (offs + int (recordSize i (length p))) es None"
    by (intro seg_cong) auto
  with sg have "seg ?h (Some a) (offs + int (recordSize i (length p))) es None" by simp
  from Cons.IH [OF this d] have "shiftOffsets ?h (firstAddr es None) d = Some (shiftAll ?h (fst ` set es) d)" .
  moreover have "shiftAll ?h (fst ` set es) d = shiftAll h (fst ` set (e # es)) d"
    using a e by (auto simp: shiftAll_def fun_eq_iff)
  ultimately show ?case using nx e
    by (subst shiftOffsets.simps) simp
qed

section \<open>The rewrite of a bucket file\<close>

lemma copyN_prefix: "copyN (x @ y) 0 (int (length x)) = Some (x, length x)"
  by (simp add: copyN_def)

lemma copyN_middle: "copyN (x @ y @ z) (length x) (int (length y)) = Some (y, length x + length y)"
  by (simp add: copyN_def)

lemma append_effect:
  "appendObjectToBucketFile noFault obj i file offs
     = Inr (file @ encodeRecord i (contents obj),
            (if offs < 0 then int (length file) else offs),
            int (headerSize i (len obj)), int (len obj))"
  by (simp add: appendObjectToBucketFile_def noFault_def encodeRecord_def headerSize_def
      len_def contents_def Let_def split: option.splits)

lemma replace_effect_gen:
  assumes dsk: "dsk path = Some (A @ H @ P0 @ [separator] @ B)"
    and m: "offset m = int (length A)" "metaSize m + 1 = int (length H)"
      "size' m = int (length P0)"
  shows "replaceObjectInBucketFile noFault obj i m path dsk []
         = Inr (A @ (case obj of None \<Rightarrow> []
                     | Some p \<Rightarrow> (if length p \<noteq> length P0 then i @ '' '' @ itoa (length p) @ '' '' else H)
                                 @ p @ [separator]) @ B,
                (case obj of None \<Rightarrow> 0
                 | Some p \<Rightarrow> if length p \<noteq> length P0 then int (headerSize i (length p)) else 0),
                int (len obj))"
proof -
  define bf where "bf = A @ H @ P0 @ [separator] @ B"
  have dsk': "dsk path = Some bf" by (simp add: dsk bf_def)
  have c1: "copyN bf 0 (offset m) = Some (A, length A)"
    unfolding m bf_def by (rule copyN_prefix)
  have c2: "copyN bf (length A) (metaSize m + 1) = Some (H, length A + length H)"
    unfolding m bf_def by (rule copyN_middle)
  have offs: "nat (offset m + metaSize m + size' m + 2) = length A + length H + length P0 + 1"
    using m by simp
  have dr: "drop (length A + length H + length P0 + 1) bf = B"
    by (simp add: bf_def)
  have pos: "0 < offset m + metaSize m + size' m + 2"
    using m by simp
  have offs': "nat (offset m + metaSize m + int (length P0) + 2) = length A + length H + length P0 + 1"
    using m by simp
  show ?thesis
  proof (cases obj)
    case None
    then show ?thesis
      unfolding replaceObjectInBucketFile_def writeReplacement_def
      using pos dr
      by (simp add: dsk' c1 offs len_def)
  next
    case (Some p)
    show ?thesis
    proof (cases "length p = length P0")
      case True
      then show ?thesis
        unfolding replaceObjectInBucketFile_def writeReplacement_def
        using pos dr Some
        by (simp add: dsk' c1 c2 m(3) offs' len_def contents_def)
    next
      case False
      then show ?thesis
        unfolding replaceObjectInBucketFile_def writeReplacement_def
        using pos dr Some
        by (simp add: dsk' c1 m(3) offs' append_effect len_def contents_def encodeRecord_def)
    qed
  qed
qed

lemma replace_effect:
  assumes dsk: "dsk path = Some (fileOf es1 @ encodeRecord i p0 @ fileOf es2)"
    and m: "offset m = int (length (fileOf es1))" "metaSize m = int (headerSize i (length p0))"
      "size' m = int (length p0)"
  shows "replaceObjectInBucketFile noFault obj i m path dsk []
         = Inr (fileOf es1 @ (case obj of None \<Rightarrow> [] | Some p \<Rightarrow> encodeRecord i p) @ fileOf es2,
                (case obj of None \<Rightarrow> 0
                 | Some p \<Rightarrow> if length p \<noteq> length p0 then int (headerSize i (length p)) else 0),
                int (len obj))"
proof -
  have A: "dsk path = Some (fileOf es1 @ (i @ '' '' @ itoa (length p0) @ '' '') @ p0 @ [separator] @ fileOf es2)"
    by (simp add: dsk encodeRecord_def)
  have B: "metaSize m + 1 = int (length (i @ '' '' @ itoa (length p0) @ '' ''))"
    by (simp add: m(2) headerSize_def)
  from replace_effect_gen [where A = "fileOf es1" and H = "i @ '' '' @ itoa (length p0) @ '' ''"
      and ?P0.0 = p0 and B = "fileOf es2" and dsk = dsk and path = path and m = m,
      OF A m(1) B m(3)]
  show ?thesis
    by (auto simp: headerSize_def encodeRecord_def split: option.splits)
qed

section \<open>What a description gives\<close>

lemma pathJoin_inject: "pathJoin sp (b @ ''.dat'') = pathJoin sp (b' @ ''.dat'') \<Longrightarrow> b = b'"
  by (auto simp: pathJoin_def split: if_splits)

lemma describes_bucket:
  assumes "describes P E w" "buckets w b = Some bm"
  shows "bucketRep (heap w) bm (E b)" "disk w (filePath bm) = Some (fileOf (E b))"
    "filePath bm = pathJoin (storePath w) (b @ ''.dat'')" "unat (muIndex bm) < numMutexes"
    "\<And>e. e \<in> set (E b) \<Longrightarrow> fst e < nextAddr w" 
    "\<And>e. e \<in> set (E b) \<Longrightarrow> P (fst (snd e)) (snd (snd e))"
  using assms unfolding describes_def by blast+

lemma describes_fresh:
  assumes "describes P E w" "buckets w b = Some bm"
  shows "nextAddr w \<notin> fst ` set (E b)"
  using describes_bucket(5) [OF assms] by fastforce

lemma describes_apart:
  assumes "describes P E w" "buckets w b = Some bm" "buckets w b' = Some bm'" "b \<noteq> b'"
  shows "fst ` set (E b) \<inter> fst ` set (E b') = {}"
  using assms unfolding describes_def by blast

lemma bucketRep_lookup:
  assumes "bucketRep h bm es" "objects bm i = Some a"
  shows "\<exists>es1 p0 es2. es = es1 @ (a, i, p0) # es2"
proof -
  from assms have "map_of (map (\<lambda>e. (fst (snd e), fst e)) es) i = Some a"
    by (simp add: bucketRep_def)
  then have "(i, a) \<in> set (map (\<lambda>e. (fst (snd e), fst e)) es)"
    by (rule map_of_SomeD)
  then obtain e where "e \<in> set es" "fst (snd e) = i" "fst e = a" by auto
  then have "(a, i, snd (snd e)) \<in> set es" by (cases e) auto
  from split_list [OF this] show ?thesis by blast
qed

lemma bucketRep_lookup_None:
  assumes "bucketRep h bm es" "objects bm i = None"
  shows "i \<notin> (\<lambda>e. fst (snd e)) ` set es"
proof -
  from assms have "map_of (map (\<lambda>e. (fst (snd e), fst e)) es) i = None"
    by (simp add: bucketRep_def)
  then show ?thesis by (force simp: map_of_eq_None_iff)
qed

lemma bucketRep_dom: "bucketRep h bm es \<Longrightarrow> dom (objects bm) = (\<lambda>e. fst (snd e)) ` set es"
  by (force simp: bucketRep_def dom_map_of_conv_image_fst)

lemma bucketRep_card: "bucketRep h bm es \<Longrightarrow> card (dom (objects bm)) = length es"
proof -
  assume r: "bucketRep h bm es"
  then have "dom (objects bm) = set (map (\<lambda>e. fst (snd e)) es)"
    by (simp add: bucketRep_dom)
  moreover from r have "distinct (map (\<lambda>e. fst (snd e)) es)" by (simp add: bucketRep_def)
  ultimately show ?thesis using distinct_card [of "map (\<lambda>e. fst (snd e)) es"] by simp
qed

lemma bucketRep_node:
  assumes "bucketRep h bm (es1 @ (a, i, p0) # es2)"
  shows "offset (h a) = int (length (fileOf es1))" "metaSize (h a) = int (headerSize i (length p0))"
    "size' (h a) = int (length p0)" "prev (h a) = lastAddr es1 None" "next (h a) = firstAddr es2 None"
    "seg h None 0 es1 (Some a)"
    "seg h (Some a) (int (length (fileOf es1)) + int (recordSize i (length p0))) es2 None"
    "a \<notin> fst ` set es1" "a \<notin> fst ` set es2" "fst ` set es1 \<inter> fst ` set es2 = {}"
    "distinct (map fst es1)" "distinct (map fst es2)"
    "i \<notin> (\<lambda>e. fst (snd e)) ` set es1" "i \<notin> (\<lambda>e. fst (snd e)) ` set es2"
    "distinct (map (\<lambda>e. fst (snd e)) es1)" "distinct (map (\<lambda>e. fst (snd e)) es2)"
    "(\<lambda>e. fst (snd e)) ` set es1 \<inter> (\<lambda>e. fst (snd e)) ` set es2 = {}"
  using assms by (auto simp: bucketRep_def seg_append)

section \<open>Re-establishing a description\<close>

lemma bucketRep_frame:
  assumes "bucketRep h bm es" "\<And>a. a \<in> fst ` set es \<Longrightarrow> h' a = h a"
  shows "bucketRep h' bm es"
  using assms seg_cong [of es h' h None 0 None] by (simp add: bucketRep_def)

lemma describes_update:
  assumes d: "describes P E w"
    and sp: "storePath w' = storePath w"
    and bs: "buckets w' = (buckets w)(b \<mapsto> bm')"
    and na: "nextAddr w \<le> nextAddr w'"
    and hp: "\<And>a b'' bm''. b'' \<noteq> b \<Longrightarrow> buckets w b'' = Some bm'' \<Longrightarrow> a \<in> fst ` set (E b'')
               \<Longrightarrow> heap w' a = heap w a"
    and dk: "\<And>q. q \<noteq> pathJoin (storePath w) (b @ ''.dat'') \<Longrightarrow> disk w' q = disk w q"
    and rep: "bucketRep (heap w') bm' es'"
    and fl: "disk w' (filePath bm') = Some (fileOf es')"
    and path: "filePath bm' = pathJoin (storePath w) (b @ ''.dat'')"
    and mu: "unat (muIndex bm') < numMutexes"
    and below: "\<And>e. e \<in> set es' \<Longrightarrow> fst e < nextAddr w' \<and> P (fst (snd e)) (snd (snd e))"
    and apart: "\<And>b'' bm''. b'' \<noteq> b \<Longrightarrow> buckets w b'' = Some bm''
               \<Longrightarrow> fst ` set es' \<inter> fst ` set (E b'') = {}"
  shows "describes P (E(b := es')) w'"
  unfolding describes_def
proof (intro conjI allI impI ballI)
  fix c bm
  assume c: "buckets w' c = Some bm"
  show "bucketRep (heap w') bm ((E(b := es')) c)"
  proof (cases "c = b")
    case True
    with c bs rep show ?thesis by simp
  next
    case False
    with c bs have old: "buckets w c = Some bm" by simp
    from describes_bucket(1) [OF d old] hp [OF False old]
    show ?thesis using False by (auto intro: bucketRep_frame)
  qed
  show "disk w' (filePath bm) = Some (fileOf ((E(b := es')) c))"
  proof (cases "c = b")
    case True
    with c bs fl show ?thesis by simp
  next
    case False
    with c bs have old: "buckets w c = Some bm" by simp
    from describes_bucket(3) [OF d old] False have "filePath bm \<noteq> pathJoin (storePath w) (b @ ''.dat'')"
      by (auto dest: pathJoin_inject)
    from dk [OF this] describes_bucket(2) [OF d old] False show ?thesis by simp
  qed
  show "filePath bm = pathJoin (storePath w') (c @ ''.dat'')"
    using c bs path sp describes_bucket(3) [OF d, of c bm] by (cases "c = b") auto
  show "unat (muIndex bm) < numMutexes"
    using c bs mu describes_bucket(4) [OF d, of c bm] by (cases "c = b") auto
next
  fix c bm e
  assume c: "buckets w' c = Some bm" and e: "e \<in> set ((E(b := es')) c)"
  show "fst e < nextAddr w'"
    using c e bs below [of e] na describes_bucket(5) [OF d, of c bm e] by (cases "c = b") auto
  show "P (fst (snd e)) (snd (snd e))"
    using c e bs below [of e] describes_bucket(6) [OF d, of c bm e] by (cases "c = b") auto
next
  fix c c'
  assume n: "c \<noteq> c'" and r: "buckets w' c \<noteq> None" "buckets w' c' \<noteq> None"
  show "fst ` set ((E(b := es')) c) \<inter> fst ` set ((E(b := es')) c') = {}"
  proof (cases "c = b")
    case True
    with n r bs obtain bm'' where "buckets w c' = Some bm''" by auto
    from apart [OF _ this] n True show ?thesis by auto
  next
    case cb: False
    show ?thesis
    proof (cases "c' = b")
      case True
      with n r bs obtain bm'' where "buckets w c = Some bm''" by auto
      from apart [OF _ this] n True show ?thesis by auto
    next
      case False
      with cb n r bs obtain bm1 bm2 where "buckets w c = Some bm1" "buckets w c' = Some bm2" by auto
      from describes_apart [OF d this n] cb False show ?thesis by simp
    qed
  qed
qed

lemma describes_remove:
  assumes d: "describes P E w"
    and sp: "storePath w' = storePath w"
    and bs: "buckets w' = (buckets w)(b := None)"
    and na: "nextAddr w \<le> nextAddr w'"
    and hp: "heap w' = heap w"
    and dk: "\<And>q. q \<noteq> pathJoin (storePath w) (b @ ''.dat'') \<Longrightarrow> disk w' q = disk w q"
  shows "describes P E w'"
  unfolding describes_def
proof (intro conjI allI impI ballI)
  fix c bm
  assume c: "buckets w' c = Some bm"
  with bs have cb: "c \<noteq> b" and old: "buckets w c = Some bm" by (auto split: if_splits)
  show "bucketRep (heap w') bm (E c)"
    using describes_bucket(1) [OF d old] hp by simp
  from describes_bucket(3) [OF d old] cb have "filePath bm \<noteq> pathJoin (storePath w) (b @ ''.dat'')"
    by (auto dest: pathJoin_inject)
  from dk [OF this] describes_bucket(2) [OF d old]
  show "disk w' (filePath bm) = Some (fileOf (E c))" by simp
  show "filePath bm = pathJoin (storePath w') (c @ ''.dat'')"
    using sp describes_bucket(3) [OF d old] by simp
  show "unat (muIndex bm) < numMutexes"
    using describes_bucket(4) [OF d old] .
next
  fix c bm e
  assume c: "buckets w' c = Some bm" and e: "e \<in> set (E c)"
  with bs have old: "buckets w c = Some bm" by (auto split: if_splits)
  show "fst e < nextAddr w'"
    using na describes_bucket(5) [OF d old e] by simp
  show "P (fst (snd e)) (snd (snd e))"
    using describes_bucket(6) [OF d old e] .
next
  fix c c'
  assume n: "c \<noteq> c'" and r: "buckets w' c \<noteq> None" "buckets w' c' \<noteq> None"
  with bs obtain bm1 bm2 where "buckets w c = Some bm1" "buckets w c' = Some bm2"
    by (auto split: if_splits)
  from describes_apart [OF d this n] show "fst ` set (E c) \<inter> fst ` set (E c') = {}" .
qed

lemma bucketIdToMutexIndex_Inr:
  "\<exists>mu. bucketIdToMutexIndex b = Inr mu \<and> unat mu < numMutexes"
  by (simp add: bucketIdToMutexIndex_def fnvWrite_def numMutexes_def unat_mod)

lemma Store_new_bucket:
  assumes d: "describes P E w" and nb: "buckets w b = None" and P: "P i p"
  shows "\<exists>w'. Store noFault (Some p) i b w = Returns (w', False, None)
           \<and> describes P (E(b := [(nextAddr w, i, p)])) w' \<and> buckets w' b \<noteq> None"
proof -
  obtain mu where mu: "bucketIdToMutexIndex b = Inr mu" "unat mu < numMutexes"
    using bucketIdToMutexIndex_Inr by blast
  define path where "path = pathJoin (storePath w) (b @ ''.dat'')"
  define a where "a = nextAddr w"
  define bm' where "bm' = \<lparr>filePath = path, muIndex = mu, lastObject = Some a, objects = [i \<mapsto> a]\<rparr>"
  define node where "node = \<lparr>offset = 0, size' = int (length p), metaSize = int (headerSize i (length p)),
     prev = None, next = None\<rparr>"
  define w' where "w' = w\<lparr>buckets := (buckets w)(b \<mapsto> bm'), disk := (disk w)(path \<mapsto> encodeRecord i p),
     heap := (heap w)(a := node), nextAddr := Suc a\<rparr>"
  have st: "Store noFault (Some p) i b w = Returns (w', False, None)"
    unfolding Store_def storeObject_def
    by (simp add: nb mu append_effect Let_def path_def a_def bm'_def node_def w'_def len_def contents_def)
  have "describes P (E(b := [(a, i, p)])) w'"
  proof (rule describes_update [OF d])
    show "storePath w' = storePath w" by (simp add: w'_def)
    show "buckets w' = (buckets w)(b \<mapsto> bm')" by (simp add: w'_def)
    show "nextAddr w \<le> nextAddr w'" by (simp add: w'_def a_def)
    show "heap w' x = heap w x" if "b'' \<noteq> b" "buckets w b'' = Some bm''" "x \<in> fst ` set (E b'')" for x b'' bm''
    proof -
      from describes_fresh [OF d that(2)] that(3) have "x \<noteq> a" unfolding a_def by blast
      then show ?thesis by (simp add: w'_def)
    qed
    show "disk w' q = disk w q" if "q \<noteq> pathJoin (storePath w) (b @ ''.dat'')" for q
      using that by (simp add: w'_def path_def)
    show "bucketRep (heap w') bm' [(a, i, p)]"
      by (simp add: bucketRep_def bm'_def w'_def node_def)
    show "disk w' (filePath bm') = Some (fileOf [(a, i, p)])"
      by (simp add: w'_def bm'_def)
    show "filePath bm' = pathJoin (storePath w) (b @ ''.dat'')"
      by (simp add: bm'_def path_def)
    show "unat (muIndex bm') < numMutexes"
      by (simp add: bm'_def mu)
    show "fst e < nextAddr w' \<and> P (fst (snd e)) (snd (snd e))" if "e \<in> set [(a, i, p)]" for e
      using that P by (simp add: w'_def)
    show "fst ` set [(a, i, p)] \<inter> fst ` set (E b'') = {}" if "b'' \<noteq> b" "buckets w b'' = Some bm''" for b'' bm''
      using describes_fresh [OF d that(2)] by (simp add: a_def)
  qed
  moreover have "buckets w' b \<noteq> None" by (simp add: w'_def)
  ultimately show ?thesis using st by (auto simp: a_def)
qed

lemma seg_set_next:
  "seg h pv offs es nx \<Longrightarrow> distinct (map fst es) \<Longrightarrow> es \<noteq> []
   \<Longrightarrow> seg (h(fst (last es) := (h (fst (last es)))\<lparr>next := nx'\<rparr>)) pv offs es nx'"
proof (induction es arbitrary: pv offs)
  case Nil
  then show ?case by simp
next
  case (Cons e es)
  obtain a i p where e: "e = (a, i, p)" by (cases e)
  show ?case
  proof (cases "es = []")
    case True
    with Cons.prems e show ?thesis by simp
  next
    case False
    with Cons.prems e have "fst (last es) \<noteq> a"
      by (metis distinct.simps(2) fst_conv last_in_set list.simps(9) image_eqI set_map)
    moreover from False obtain e' es' where "es = e' # es'" by (cases es) auto
    ultimately show ?thesis using Cons.prems e False Cons.IH [of "Some a" "offs + int (recordSize i (length p))"]
      by simp
  qed
qed

lemma map_of_snoc:
  "k \<notin> fst ` set xs \<Longrightarrow> map_of (xs @ [(k, v)]) = (map_of xs)(k \<mapsto> v)"
  by (induction xs) (auto simp: fun_eq_iff)

lemma Store_append:
  assumes d: "describes P E w" and bk: "buckets w b = Some bm" and no: "objects bm i = None"
    and P: "P i p"
  shows "\<exists>w'. Store noFault (Some p) i b w = Returns (w', False, None)
           \<and> describes P (E(b := E b @ [(nextAddr w, i, p)])) w' \<and> buckets w' b \<noteq> None"
proof -
  note bd = describes_bucket [OF d bk]
  define es where "es = E b"
  define a where "a = nextAddr w"
  define node where "node = \<lparr>offset = int (length (fileOf es)), size' = int (length p),
     metaSize = int (headerSize i (length p)), prev = lastObject bm, next = None\<rparr>"
  define h1 where "h1 = (heap w)(a := node)"
  define h2 where "h2 = (case lastObject bm of None \<Rightarrow> h1 | Some l \<Rightarrow> h1(l := (h1 l)\<lparr>next := Some a\<rparr>))"
  define bm' where "bm' = bm\<lparr>objects := (objects bm)(i \<mapsto> a), lastObject := Some a\<rparr>"
  define w' where "w' = w\<lparr>disk := (disk w)(filePath bm \<mapsto> fileOf es @ encodeRecord i p),
     heap := h2, nextAddr := Suc a, buckets := (buckets w)(b \<mapsto> bm')\<rparr>"
  have rep: "bucketRep (heap w) bm es" using bd(1) by (simp add: es_def)
  have fresh: "a \<notin> fst ` set es" using describes_fresh [OF d bk] by (simp add: es_def a_def)
  have st: "Store noFault (Some p) i b w = Returns (w', False, None)"
    unfolding Store_def storeObject_def
    by (cases "lastObject bm")
       (simp_all add: bk bd(2,4) no append_effect Let_def es_def a_def bm'_def node_def w'_def h1_def
        h2_def len_def contents_def)
  have last: "lastObject bm = lastAddr es None" using rep by (simp add: bucketRep_def)
  have sg: "seg (heap w) None 0 es None" and da: "distinct (map fst es)"
    using rep by (simp_all add: bucketRep_def)
  have h2a: "h2 a = node"
    using fresh last by (auto simp: h2_def h1_def lastAddr_def split: option.splits)
  have sg1: "seg h1 None 0 es None"
    using sg fresh by (simp add: h1_def seg_fun_upd)
  have sg2: "seg h2 None 0 es (Some a)"
  proof (cases "es = []")
    case True
    then show ?thesis by simp
  next
    case False
    with last have "h2 = h1(fst (last es) := (h1 (fst (last es)))\<lparr>next := Some a\<rparr>)"
      by (simp add: h2_def lastAddr_def)
    with seg_set_next [OF sg1 da False, of "Some a"] show ?thesis by simp
  qed
  have rep': "bucketRep h2 bm' (es @ [(a, i, p)])"
    unfolding bucketRep_def
  proof (intro conjI)
    show "distinct (map fst (es @ [(a, i, p)]))" using da fresh by simp
    show "distinct (map (\<lambda>e. fst (snd e)) (es @ [(a, i, p)]))"
      using rep bucketRep_lookup_None [OF rep no] by (simp add: bucketRep_def)
    have "i \<notin> fst ` set (map (\<lambda>e. (fst (snd e), fst e)) es)"
      using bucketRep_lookup_None [OF rep no] by force
    from map_of_snoc [OF this, of a]
    show "objects bm' = map_of (map (\<lambda>e. (fst (snd e), fst e)) (es @ [(a, i, p)]))"
      using rep by (simp add: bm'_def bucketRep_def)
    show "lastObject bm' = lastAddr (es @ [(a, i, p)]) None" by (simp add: bm'_def)
    show "seg h2 None 0 (es @ [(a, i, p)]) None"
      using sg2 h2a last by (simp add: seg_append node_def)
  qed
  have "describes P (E(b := es @ [(a, i, p)])) w'"
  proof (rule describes_update [OF d])
    show "storePath w' = storePath w" by (simp add: w'_def)
    show "buckets w' = (buckets w)(b \<mapsto> bm')" by (simp add: w'_def)
    show "nextAddr w \<le> nextAddr w'" by (simp add: w'_def a_def)
    show "heap w' x = heap w x" if "b'' \<noteq> b" "buckets w b'' = Some bm''" "x \<in> fst ` set (E b'')" for x b'' bm''
    proof -
      from describes_fresh [OF d that(2)] that(3) have xa: "x \<noteq> a" unfolding a_def by blast
      have "x \<notin> fst ` set es" using describes_apart [OF d that(2) bk that(1)] that(3) by (auto simp: es_def)
      with last have "lastObject bm \<noteq> Some x" by (auto simp: lastAddr_def split: if_splits)
      with xa show ?thesis by (auto simp: w'_def h2_def h1_def split: option.splits)
    qed
    show "disk w' q = disk w q" if "q \<noteq> pathJoin (storePath w) (b @ ''.dat'')" for q
      using that bd(3) by (simp add: w'_def)
    show "bucketRep (heap w') bm' (es @ [(a, i, p)])" using rep' by (simp add: w'_def)
    show "disk w' (filePath bm') = Some (fileOf (es @ [(a, i, p)]))"
      by (simp add: w'_def bm'_def fileOf_append)
    show "filePath bm' = pathJoin (storePath w) (b @ ''.dat'')"
      using bd(3) by (simp add: bm'_def)
    show "unat (muIndex bm') < numMutexes"
      using bd(4) by (simp add: bm'_def)
    show "fst e < nextAddr w' \<and> P (fst (snd e)) (snd (snd e))" if "e \<in> set (es @ [(a, i, p)])" for e
      using that P bd(5,6) [of e] by (auto simp: w'_def es_def a_def)
    show "fst ` set (es @ [(a, i, p)]) \<inter> fst ` set (E b'') = {}" if "b'' \<noteq> b" "buckets w b'' = Some bm''" for b'' bm''
      using describes_fresh [OF d that(2)] describes_apart [OF d bk that(2)] that(1)
      by (auto simp: a_def es_def)
  qed
  moreover have "buckets w' b \<noteq> None" by (simp add: w'_def)
  ultimately show ?thesis using st by (auto simp: a_def es_def)
qed

lemma bucketRep_objects:
  assumes "bucketRep h bm (es1 @ (a, i, p0) # es2)"
  shows "objects bm i = Some a"
proof -
  have "map_of (map (\<lambda>e. (fst (snd e), fst e)) (es1 @ (a, i, p0) # es2)) i = Some a"
    using bucketRep_node(13) [OF assms]
    by (simp add: map_of_append map_add_def map_of_eq_None_iff [THEN iffD2] image_image split: option.splits)
  with assms show ?thesis by (simp add: bucketRep_def)
qed

lemma Store_replace:
  assumes d: "describes P E w" and bk: "buckets w b = Some bm"
    and eb: "E b = es1 @ (a, i, p0) # es2" and P: "P i p"
  shows "\<exists>w'. Store noFault (Some p) i b w = Returns (w', True, None)
           \<and> describes P (E(b := es1 @ (a, i, p) # es2)) w' \<and> buckets w' = buckets w"
proof -
  note bd = describes_bucket [OF d bk]
  have rep: "bucketRep (heap w) bm (es1 @ (a, i, p0) # es2)" using bd(1) by (simp add: eb)
  note nd = bucketRep_node [OF rep]
  have oa: "objects bm i = Some a" using rep by (rule bucketRep_objects)
  define delta where "delta = int (headerSize i (length p)) + int (length p)
     - int (headerSize i (length p0)) - int (length p0)"
  define hs where "hs = shiftAll (heap w) (fst ` set es2) delta"
  define h' where "h' = (if length p \<noteq> length p0
     then hs(a := (hs a)\<lparr>metaSize := int (headerSize i (length p)), size' := int (length p)\<rparr>)
     else heap w)"
  define w' where "w' = w\<lparr>disk := (disk w)(filePath bm \<mapsto> fileOf es1 @ encodeRecord i p @ fileOf es2),
     heap := h'\<rparr>"
  have dk: "disk w (filePath bm) = Some (fileOf es1 @ encodeRecord i p0 @ fileOf es2)"
    using bd(2) by (simp add: eb fileOf_append)
  have re: "replaceObjectInBucketFile noFault (Some p) i (heap w a) (filePath bm) (disk w) []
      = Inr (fileOf es1 @ encodeRecord i p @ fileOf es2,
             (if length p \<noteq> length p0 then int (headerSize i (length p)) else 0), int (length p))"
    using replace_effect [where dsk = "disk w" and path = "filePath bm" and obj = "Some p",
        OF dk nd(1,2,3)] by (simp add: len_def)
  have sh: "shiftOffsets (heap w) (next (heap w a)) delta = Some hs"
    unfolding nd(5) hs_def using nd(7) nd(12) by (rule shiftOffsets_seg)
  have st: "Store noFault (Some p) i b w = Returns (w', True, None)"
    unfolding Store_def storeObject_def
    using sh
    by (simp add: bk bd(4) oa re nd(2,3) w'_def h'_def delta_def)
  have hsa: "hs a = heap w a" using nd(9) by (simp add: hs_def shiftAll_def)
  have hs1: "hs x = heap w x" if "x \<in> fst ` set es1" for x
    using that nd(10) by (auto simp: hs_def shiftAll_def)
  have rep': "bucketRep h' bm (es1 @ (a, i, p) # es2)"
  proof (cases "length p = length p0")
    case True
    with rep show ?thesis
      by (simp add: h'_def bucketRep_def seg_append)
  next
    case False
    have s1: "seg h' None 0 es1 (Some a)"
    proof -
      have "seg hs None 0 es1 (Some a)"
        using nd(6) hs1 seg_cong [of es1 hs "heap w"] by simp
      with False nd(8) show ?thesis by (simp add: h'_def seg_fun_upd)
    qed
    have "seg hs (Some a) (int (length (fileOf es1)) + int (recordSize i (length p0)) + delta) es2 None"
      unfolding hs_def using nd(7) by (rule seg_shiftAll) simp
    moreover have "int (length (fileOf es1)) + int (recordSize i (length p0)) + delta
        = int (length (fileOf es1)) + int (recordSize i (length p))"
      by (simp add: delta_def recordSize_def)
    ultimately have s2: "seg h' (Some a) (int (length (fileOf es1)) + int (recordSize i (length p))) es2 None"
      using False nd(9) by (simp add: h'_def seg_fun_upd)
    have "h' a = (heap w a)\<lparr>metaSize := int (headerSize i (length p)), size' := int (length p)\<rparr>"
      using False hsa by (simp add: h'_def)
    with s1 s2 rep nd(1,4,5) show ?thesis
      by (simp add: bucketRep_def seg_append)
  qed
  have "describes P (E(b := es1 @ (a, i, p) # es2)) w'"
  proof (rule describes_update [OF d])
    show "storePath w' = storePath w" by (simp add: w'_def)
    show "buckets w' = (buckets w)(b \<mapsto> bm)" using bk by (auto simp: w'_def)
    show "nextAddr w \<le> nextAddr w'" by (simp add: w'_def)
    show "heap w' x = heap w x" if "b'' \<noteq> b" "buckets w b'' = Some bm''" "x \<in> fst ` set (E b'')" for x b'' bm''
    proof -
      have "x \<notin> fst ` set (E b)" using describes_apart [OF d that(2) bk that(1)] that(3) by auto
      then have "x \<noteq> a" "x \<notin> fst ` set es2" by (auto simp: eb)
      then show ?thesis by (simp add: w'_def h'_def hs_def shiftAll_def)
    qed
    show "disk w' q = disk w q" if "q \<noteq> pathJoin (storePath w) (b @ ''.dat'')" for q
      using that bd(3) by (simp add: w'_def)
    show "bucketRep (heap w') bm (es1 @ (a, i, p) # es2)" using rep' by (simp add: w'_def)
    show "disk w' (filePath bm) = Some (fileOf (es1 @ (a, i, p) # es2))"
      by (simp add: w'_def fileOf_append)
    show "filePath bm = pathJoin (storePath w) (b @ ''.dat'')" using bd(3) .
    show "unat (muIndex bm) < numMutexes" using bd(4) .
    show "fst e < nextAddr w' \<and> P (fst (snd e)) (snd (snd e))" if "e \<in> set (es1 @ (a, i, p) # es2)" for e
      using that P bd(5,6) [of e] bd(5) [of "(a, i, p0)"] by (auto simp: w'_def eb)
    show "fst ` set (es1 @ (a, i, p) # es2) \<inter> fst ` set (E b'') = {}" if "b'' \<noteq> b" "buckets w b'' = Some bm''" for b'' bm''
      using describes_apart [OF d bk that(2)] that(1) by (auto simp: eb)
  qed
  moreover have "buckets w' = buckets w" by (simp add: w'_def)
  ultimately show ?thesis using st by blast
qed

lemma describes_unregistered:
  assumes d: "describes P E w" and nb: "buckets w b = None"
  shows "describes P (E(b := es)) w"
  unfolding describes_def
proof (intro conjI allI impI ballI)
  fix c bm
  assume c: "buckets w c = Some bm"
  with nb have cb: "c \<noteq> b" by auto
  note bd = describes_bucket [OF d c]
  show "bucketRep (heap w) bm ((E(b := es)) c)" using bd(1) cb by simp
  show "disk w (filePath bm) = Some (fileOf ((E(b := es)) c))" using bd(2) cb by simp
  show "filePath bm = pathJoin (storePath w) (c @ ''.dat'')" using bd(3) .
  show "unat (muIndex bm) < numMutexes" using bd(4) .
next
  fix c bm e
  assume c: "buckets w c = Some bm" and e: "e \<in> set ((E(b := es)) c)"
  with nb have cb: "c \<noteq> b" by auto
  with e have e': "e \<in> set (E c)" by simp
  show "fst e < nextAddr w" using describes_bucket(5) [OF d c e'] .
  show "P (fst (snd e)) (snd (snd e))" using describes_bucket(6) [OF d c e'] .
next
  fix c c'
  assume n: "c \<noteq> c'" and r: "buckets w c \<noteq> None" "buckets w c' \<noteq> None"
  with nb have "c \<noteq> b" "c' \<noteq> b" by auto
  moreover from r obtain bm1 bm2 where "buckets w c = Some bm1" "buckets w c' = Some bm2" by auto
  ultimately show "fst ` set ((E(b := es)) c) \<inter> fst ` set ((E(b := es)) c') = {}"
    using describes_apart [OF d _ _ n] by simp
qed

lemma seg_set_prev:
  "seg h pv offs es nx \<Longrightarrow> distinct (map fst es) \<Longrightarrow> es \<noteq> []
   \<Longrightarrow> seg (h(fst (hd es) := (h (fst (hd es)))\<lparr>prev := pv'\<rparr>)) pv' offs es nx"
  by (cases es) (auto simp: seg_fun_upd)

lemma map_of_remove_mid:
  assumes "k \<notin> fst ` set xs" "k \<notin> fst ` set ys"
  shows "(map_of (xs @ (k, v) # ys))(k := None) = map_of (xs @ ys)"
proof
  fix x
  from assms have "map_of xs k = None" "map_of ys k = None"
    by (simp_all add: map_of_eq_None_iff)
  then show "((map_of (xs @ (k, v) # ys))(k := None)) x = map_of (xs @ ys) x"
    by (auto simp: map_of_append map_add_def split: option.splits)
qed

lemma Delete_sole:
  assumes d: "describes P E w" and bk: "buckets w b = Some bm" and eb: "E b = [(a, i, p0)]"
  shows "\<exists>w'. Delete noFault i b w = Returns (w', True, None)
           \<and> describes P (E(b := [])) w' \<and> buckets w' = (buckets w)(b := None)
           \<and> disk w' = (disk w)(filePath bm := None)"
proof -
  note bd = describes_bucket [OF d bk]
  have rep: "bucketRep (heap w) bm ([] @ (a, i, p0) # [])" using bd(1) by (simp add: eb)
  have oa: "objects bm i = Some a" using rep by (rule bucketRep_objects)
  have c1: "card (dom (objects bm)) = 1" using bucketRep_card [OF bd(1)] by (simp add: eb)
  define w' where "w' = w\<lparr>disk := (disk w)(filePath bm := None), buckets := (buckets w)(b := None)\<rparr>"
  have st: "Delete noFault i b w = Returns (w', True, None)"
    unfolding Delete_def by (simp add: bk bd(2,4) oa c1 w'_def)
  have "describes P E w'"
  proof (rule describes_remove [OF d])
    show "disk w' q = disk w q" if "q \<noteq> pathJoin (storePath w) (b @ ''.dat'')" for q
      using that bd(3) by (simp add: w'_def)
  qed (simp_all add: w'_def)
  then have "describes P (E(b := [])) w'"
    by (rule describes_unregistered) (simp add: w'_def)
  then show ?thesis using st by (auto simp: w'_def)
qed

lemma Delete_rewrite:
  assumes d: "describes P E w" and bk: "buckets w b = Some bm"
    and eb: "E b = es1 @ (a, i, p0) # es2" and ne: "es1 @ es2 \<noteq> []"
  shows "\<exists>w' bm'. Delete noFault i b w = Returns (w', True, None)
           \<and> describes P (E(b := es1 @ es2)) w'
           \<and> buckets w' = (buckets w)(b \<mapsto> bm') \<and> objects bm' = (objects bm)(i := None)"
proof -
  note bd = describes_bucket [OF d bk]
  have rep: "bucketRep (heap w) bm (es1 @ (a, i, p0) # es2)" using bd(1) by (simp add: eb)
  note nd = bucketRep_node [OF rep]
  have oa: "objects bm i = Some a" using rep by (rule bucketRep_objects)
  have c1: "card (dom (objects bm)) \<noteq> 1" using bucketRep_card [OF bd(1)] ne by (auto simp: eb)
  define rb where "rb = int (recordSize i (length p0))"
  define h1 where "h1 = (if es1 = [] then heap w
     else (heap w)(fst (last es1) := (heap w (fst (last es1)))\<lparr>next := firstAddr es2 None\<rparr>))"
  define h2 where "h2 = (if es2 = [] then h1
     else h1(fst (hd es2) := (h1 (fst (hd es2)))\<lparr>prev := lastAddr es1 None\<rparr>))"
  define h3 where "h3 = shiftAll h2 (fst ` set es2) (- rb)"
  define bm' where "bm' = (if es2 = [] then bm\<lparr>objects := (objects bm)(i := None), lastObject := lastAddr es1 None\<rparr>
     else bm\<lparr>objects := (objects bm)(i := None)\<rparr>)"
  define w' where "w' = w\<lparr>disk := (disk w)(filePath bm \<mapsto> fileOf es1 @ fileOf es2),
     heap := h3, buckets := (buckets w)(b \<mapsto> bm')\<rparr>"
  have dk: "disk w (filePath bm) = Some (fileOf es1 @ encodeRecord i p0 @ fileOf es2)"
    using bd(2) by (simp add: eb fileOf_append)
  have re: "replaceObjectInBucketFile noFault None i (heap w a) (filePath bm) (disk w) []
      = Inr (fileOf es1 @ fileOf es2, 0, 0)"
    using replace_effect [where dsk = "disk w" and path = "filePath bm" and obj = None,
        OF dk nd(1,2,3)] by (simp add: len_def)
  have last1: "es1 \<noteq> [] \<Longrightarrow> fst (last es1) \<in> fst ` set es1" by simp
  have hd2: "es2 \<noteq> [] \<Longrightarrow> fst (hd es2) \<in> fst ` set es2" by simp
  have last2: "es1 \<noteq> [] \<Longrightarrow> fst (last es1) \<notin> fst ` set es2" using last1 nd(10) by blast
  have hd1: "es2 \<noteq> [] \<Longrightarrow> fst (hd es2) \<notin> fst ` set es1" using hd2 nd(10) by blast
  have h1a: "h1 a = heap w a" using nd(8) last1 by (auto simp: h1_def)
  have h2a: "h2 a = heap w a" using nd(9) hd2 h1a by (auto simp: h2_def)
  have s1: "seg h1 None 0 es1 (firstAddr es2 None)"
    using seg_set_next [OF nd(6) nd(11)] by (simp add: h1_def)
  have "seg h1 (Some a) (int (length (fileOf es1)) + rb) es2 None"
    using nd(7) last2 by (auto simp: h1_def rb_def seg_fun_upd)
  from seg_set_prev [OF this nd(12)]
  have s2: "seg h2 (lastAddr es1 None) (int (length (fileOf es1)) + rb) es2 None"
    by (auto simp: h2_def)
  have sh: "shiftOffsets h2 (firstAddr es2 None) (- rb) = Some h3"
    unfolding h3_def using s2 nd(12) by (rule shiftOffsets_seg)
  have ul: "unlinkObject i b bm a (w\<lparr>disk := (disk w)(filePath bm \<mapsto> fileOf es1 @ fileOf es2)\<rparr>)
      = Returns (w', True, None)"
  proof (cases es2)
    case Nil
    then have h31: "h3 = h1" by (simp add: h3_def h2_def shiftAll_def)
    have h1': "(case lastAddr es1 None of None \<Rightarrow> heap w
        | Some pa \<Rightarrow> (heap w)(pa := (heap w pa)\<lparr>next := next (heap w a)\<rparr>)) = h1"
      by (cases es1 rule: rev_cases) (simp_all add: h1_def nd(5))
    from Nil nd(4,5) h1a show ?thesis
      unfolding unlinkObject_def
      by (simp add: Let_def h1' h31 w'_def bm'_def)
  next
    case (Cons e es2')
    obtain n j q where e: "e = (n, j, q)" by (cases e)
    have na: "n \<noteq> a" using nd(9) Cons e by auto
    have n1: "n \<notin> fst ` set es1" using nd(10) Cons e by auto
    have h1': "(case lastAddr es1 None of None \<Rightarrow> heap w
        | Some pa \<Rightarrow> (heap w)(pa := (heap w pa)\<lparr>next := next (heap w a)\<rparr>)) = h1"
      by (cases es1 rule: rev_cases) (simp_all add: h1_def nd(5))
    have h2': "h1(n := (h1 n)\<lparr>prev := lastAddr es1 None\<rparr>) = h2"
      using Cons e by (simp add: h2_def)
    have "- (metaSize (h2 a) + size' (h2 a) + 2) = - rb"
      by (simp add: h2a nd(2,3) rb_def recordSize_def)
    with sh Cons e na nd(4,5) h1a show ?thesis
      unfolding unlinkObject_def
      by (simp add: Let_def h1' h2' h2a w'_def bm'_def)
  qed
  have st: "Delete noFault i b w = Returns (w', True, None)"
    unfolding Delete_def using c1 by (simp add: bk bd(4) oa re ul)
  have h31: "h3 x = h1 x" if "x \<in> fst ` set es1" for x
    using that nd(10) hd1 by (auto simp: h3_def h2_def shiftAll_def)
  have rep': "bucketRep h3 bm' (es1 @ es2)"
    unfolding bucketRep_def
  proof (intro conjI)
    show "distinct (map fst (es1 @ es2))" using nd(10,11,12) by simp
    show "distinct (map (\<lambda>e. fst (snd e)) (es1 @ es2))" using nd(15,16,17) by simp
    let ?f = "\<lambda>e::entry. (fst (snd e), fst e)"
    have k: "i \<notin> fst ` set (map ?f es1)" "i \<notin> fst ` set (map ?f es2)"
      using nd(13,14) by force+
    have m1: "map ?f (es1 @ (a, i, p0) # es2) = map ?f es1 @ (i, a) # map ?f es2" by simp
    have m2: "map ?f (es1 @ es2) = map ?f es1 @ map ?f es2" by simp
    have ob: "objects bm = map_of (map ?f (es1 @ (a, i, p0) # es2))"
      using rep unfolding bucketRep_def by blast
    have "objects bm' = (objects bm)(i := None)" by (simp add: bm'_def)
    also have "\<dots> = (map_of (map ?f es1 @ (i, a) # map ?f es2))(i := None)"
      unfolding ob m1 ..
    also have "\<dots> = map_of (map ?f es1 @ map ?f es2)"
      using k by (rule map_of_remove_mid)
    finally show "objects bm' = map_of (map ?f (es1 @ es2))"
      unfolding m2 .
    have lb: "lastObject bm = lastAddr es2 (Some a)"
      using rep unfolding bucketRep_def by simp
    show "lastObject bm' = lastAddr (es1 @ es2) None"
      by (cases "es2 = []") (simp_all add: bm'_def lb lastAddr_def)
    have "seg h3 None 0 es1 (firstAddr es2 None)"
      using s1 h31 seg_cong [of es1 h3 h1] by simp
    moreover have "seg h3 (lastAddr es1 None) (int (length (fileOf es1)) + rb + (- rb)) es2 None"
      unfolding h3_def using s2 by (rule seg_shiftAll) simp
    ultimately show "seg h3 None 0 (es1 @ es2) None"
      by (simp add: seg_append)
  qed
  have "describes P (E(b := es1 @ es2)) w'"
  proof (rule describes_update [OF d])
    show "storePath w' = storePath w" by (simp add: w'_def)
    show "buckets w' = (buckets w)(b \<mapsto> bm')" by (simp add: w'_def)
    show "nextAddr w \<le> nextAddr w'" by (simp add: w'_def)
    show "heap w' x = heap w x" if "b'' \<noteq> b" "buckets w b'' = Some bm''" "x \<in> fst ` set (E b'')" for x b'' bm''
    proof -
      have "x \<notin> fst ` set (E b)" using describes_apart [OF d that(2) bk that(1)] that(3) by auto
      then have "x \<notin> fst ` set es1" "x \<notin> fst ` set es2" by (auto simp: eb)
      with last1 hd2 have "es1 \<noteq> [] \<Longrightarrow> x \<noteq> fst (last es1)" "es2 \<noteq> [] \<Longrightarrow> x \<noteq> fst (hd es2)"
        by blast+
      then have "h1 x = heap w x" "h2 x = h1 x" by (simp_all add: h1_def h2_def)
      moreover have "h3 x = h2 x" using \<open>x \<notin> fst ` set es2\<close> by (simp add: h3_def shiftAll_def)
      ultimately show ?thesis by (simp add: w'_def)
    qed
    show "disk w' q = disk w q" if "q \<noteq> pathJoin (storePath w) (b @ ''.dat'')" for q
      using that bd(3) by (simp add: w'_def)
    show "bucketRep (heap w') bm' (es1 @ es2)" using rep' by (simp add: w'_def)
    show "disk w' (filePath bm') = Some (fileOf (es1 @ es2))"
      by (simp add: w'_def bm'_def fileOf_append)
    show "filePath bm' = pathJoin (storePath w) (b @ ''.dat'')" using bd(3) by (simp add: bm'_def)
    show "unat (muIndex bm') < numMutexes" using bd(4) by (simp add: bm'_def)
    show "fst e < nextAddr w' \<and> P (fst (snd e)) (snd (snd e))" if "e \<in> set (es1 @ es2)" for e
      using that bd(5,6) [of e] by (auto simp: w'_def eb)
    show "fst ` set (es1 @ es2) \<inter> fst ` set (E b'') = {}" if "b'' \<noteq> b" "buckets w b'' = Some bm''" for b'' bm''
      using describes_apart [OF d bk that(2)] that(1) by (auto simp: eb)
  qed
  moreover have "buckets w' = (buckets w)(b \<mapsto> bm')" by (simp add: w'_def)
  moreover have "objects bm' = (objects bm)(i := None)" by (simp add: bm'_def)
  ultimately show ?thesis using st by blast
qed

section \<open>Every successful operation keeps the description\<close>

lemma Store_describes:
  assumes d: "describes P E w" and P: "P i p"
  shows "\<exists>w' r es'. Store noFault (Some p) i b w = Returns (w', r, None)
           \<and> describes P (E(b := es')) w' \<and> buckets w' b \<noteq> None
           \<and> (\<exists>es1 a es2. es' = es1 @ (a, i, p) # es2)"
proof (cases "buckets w b")
  case None
  from Store_new_bucket [OF d None P] obtain w' where
    "Store noFault (Some p) i b w = Returns (w', False, None)"
    "describes P (E(b := [(nextAddr w, i, p)])) w'" "buckets w' b \<noteq> None" by blast
  moreover have "\<exists>es1 a es2. [(nextAddr w, i, p)] = es1 @ (a, i, p) # es2"
    by (intro exI [of _ "[]"] exI [of _ "nextAddr w"]) simp
  ultimately show ?thesis
    by (intro exI [of _ w'] exI [of _ False] exI [of _ "[(nextAddr w, i, p)]"]) simp
next
  case (Some bm)
  show ?thesis
  proof (cases "objects bm i")
    case None
    from Store_append [OF d Some None P] obtain w' where
      "Store noFault (Some p) i b w = Returns (w', False, None)"
      "describes P (E(b := E b @ [(nextAddr w, i, p)])) w'" "buckets w' b \<noteq> None" by blast
    moreover have "\<exists>es1 a es2. E b @ [(nextAddr w, i, p)] = es1 @ (a, i, p) # es2"
      by (intro exI [of _ "E b"] exI [of _ "nextAddr w"] exI [of _ "[]"]) simp
    ultimately show ?thesis
      by (intro exI [of _ w'] exI [of _ False] exI [of _ "E b @ [(nextAddr w, i, p)]"]) simp
  next
    case oa: (Some a)
    from bucketRep_lookup [OF describes_bucket(1) [OF d Some] oa]
    obtain es1 p0 es2 where eb: "E b = es1 @ (a, i, p0) # es2" by blast
    from Store_replace [OF d Some eb P] obtain w' where
      "Store noFault (Some p) i b w = Returns (w', True, None)"
      "describes P (E(b := es1 @ (a, i, p) # es2)) w'" "buckets w' = buckets w" by blast
    moreover have "\<exists>es1' a' es2'. es1 @ (a, i, p) # es2 = es1' @ (a', i, p) # es2'"
      by blast
    ultimately show ?thesis using Some
      by (intro exI [of _ w'] exI [of _ True] exI [of _ "es1 @ (a, i, p) # es2"]) simp
  qed
qed

lemma Store_consistentP:
  assumes c: "consistentP P w" and P: "P i p"
    and st: "Store env (Some p) i b w = Returns (w', r, None)"
  shows "consistentP P w'"
proof -
  from c obtain E where d: "describes P E w" by (auto simp: consistentP_def)
  from Store_describes [OF d P, of b] Store_noFault [OF st]
  show ?thesis by (auto simp: consistentP_def)
qed

lemma Delete_describes:
  assumes d: "describes P E w" and bk: "buckets w b = Some bm" and oa: "objects bm i = Some a"
  shows "\<exists>w' es'. Delete noFault i b w = Returns (w', True, None)
           \<and> describes P (E(b := es')) w'
           \<and> (case buckets w' b of None \<Rightarrow> disk w' (filePath bm) = None
               | Some bm' \<Rightarrow> objects bm' i = None \<and> card (dom (objects bm)) \<noteq> 1)"
proof -
  from bucketRep_lookup [OF describes_bucket(1) [OF d bk] oa]
  obtain es1 p0 es2 where eb: "E b = es1 @ (a, i, p0) # es2" by blast
  show ?thesis
  proof (cases "es1 @ es2 = []")
    case True
    with eb have "E b = [(a, i, p0)]" by simp
    from Delete_sole [OF d bk this] show ?thesis by auto
  next
    case False
    from bucketRep_card [OF describes_bucket(1) [OF d bk]] False eb
    have "card (dom (objects bm)) \<noteq> 1" by auto
    with Delete_rewrite [OF d bk eb False] show ?thesis by auto
  qed
qed

lemma Delete_consistentP:
  assumes c: "consistentP P w" and st: "Delete env i b w = Returns (w', r, None)"
  shows "consistentP P w'"
proof -
  from c obtain E where d: "describes P E w" by (auto simp: consistentP_def)
  from Delete_noFault [OF st] show ?thesis
  proof
    assume nf: "Delete noFault i b w = Returns (w', r, None)"
    show ?thesis
    proof (cases "buckets w b")
      case None
      with nf have "w' = w" by (simp add: Delete_def)
      with c show ?thesis by simp
    next
      case (Some bm)
      show ?thesis
      proof (cases "objects bm i")
        case None
        with nf Some describes_bucket(4) [OF d Some] have "w' = w" by (simp add: Delete_def)
        with c show ?thesis by simp
      next
        case oa: (Some a)
        from Delete_describes [OF d Some oa] nf show ?thesis by (auto simp: consistentP_def)
      qed
    qed
  next
    assume "w' = w \<and> r"
    with c show ?thesis by simp
  qed
qed

section \<open>Layout\<close>

lemma describes_layout:
  assumes d: "describes P E w"
  shows "layout w"
  unfolding layout_def
proof (intro allI impI conjI)
  fix b bm i a
  assume bk: "buckets w b = Some bm" and oa: "objects bm i = Some a"
  from bucketRep_lookup [OF describes_bucket(1) [OF d bk] oa]
  obtain es1 p0 es2 where eb: "E b = es1 @ (a, i, p0) # es2" by blast
  have rep: "bucketRep (heap w) bm (es1 @ (a, i, p0) # es2)"
    using describes_bucket(1) [OF d bk] by (simp add: eb)
  note nd = bucketRep_node [OF rep]
  {
    fix n
    assume "next (heap w a) = Some n"
    with nd(5) obtain j q es2' where "es2 = (n, j, q) # es2'"
      by (cases es2) auto
    with nd(7) have "offset (heap w n) = int (length (fileOf es1)) + int (recordSize i (length p0))"
      by simp
    then show "offset (heap w n) = offset (heap w a) + metaSize (heap w a) + size' (heap w a) + 2"
      by (simp add: nd(1,2,3) recordSize_def)
  }
  {
    assume "prev (heap w a) = None"
    with nd(4) have "es1 = []" by (simp add: lastAddr_def split: if_splits)
    with nd(1) show "offset (heap w a) = 0" by simp
  }
qed

section \<open>Retrieve\<close>

lemma Retrieve_describes:
  assumes d: "describes P E w" and bk: "buckets w b = Some bm"
    and eb: "E b = es1 @ (a, i, p) # es2"
  shows "Retrieve noFault i b w = Returns (Some p, True, None)"
proof -
  note bd = describes_bucket [OF d bk]
  have rep: "bucketRep (heap w) bm (es1 @ (a, i, p) # es2)" using bd(1) by (simp add: eb)
  note nd = bucketRep_node [OF rep]
  have oa: "objects bm i = Some a" using rep by (rule bucketRep_objects)
  define hdr where "hdr = i @ '' '' @ itoa (length p) @ '' ''"
  have f: "fileOf (E b) = (fileOf es1 @ hdr) @ p @ separator # fileOf es2"
    by (simp add: eb fileOf_append encodeRecord_def hdr_def)
  have pos: "offset (heap w a) + metaSize (heap w a) + 1 = int (length (fileOf es1 @ hdr))"
    by (simp add: nd(1,2) headerSize_def hdr_def)
  have tk: "take (length p) (drop (length (fileOf es1 @ hdr)) (fileOf (E b))) = p"
    unfolding f by simp
  have ln: "\<not> int (length (fileOf (E b))) < int (length (fileOf es1 @ hdr)) + int (length p)"
    unfolding f by simp
  show ?thesis
    unfolding Retrieve_def
    using tk ln
    by (simp add: bk bd(2,4) oa Let_def nd(3) pos del: length_append)
qed

section \<open>The example stores\<close>

lemmas eval_defs = Store_def storeObject_def Delete_def unlinkObject_def Retrieve_def
  replaceObjectInBucketFile_def writeReplacement_def appendObjectToBucketFile_def copyN_def
  pathJoin_def noFault_def len_def contents_def bucketIdToMutexIndex_def fnvWrite_def
  fnvOffset32_def fnvPrime32_def numMutexes_def itoa.simps digitChar_def separator_def Let_def
  emptyStore_def emptyNode_def

lemma describes_emptyStore: "describes P E (emptyStore path)"
  by (simp add: describes_def emptyStore_def)

lemma consistentP_emptyStore: "consistentP P (emptyStore path)"
  unfolding consistentP_def using describes_emptyStore by blast

lemma exec_consistentP:
  assumes "consistentP P w" and "exec env op w = Returns (w', r, None)"
    and "\<And>p i b. op = OpStore p i b \<Longrightarrow> P i p"
  shows "consistentP P w'"
  using assms by (cases op) (auto intro: Store_consistentP Delete_consistentP)

lemma run_consistentP:
  assumes "consistentP P w" and "run env ops w = Some w'"
    and "\<And>p i b. OpStore p i b \<in> set ops \<Longrightarrow> P i p"
  shows "consistentP P w'"
  using assms
proof (induction ops arbitrary: w)
  case Nil
  then show ?case by simp
next
  case (Cons op ops)
  from Cons.prems(2) obtain w1 r where ex: "exec env op w = Returns (w1, r, None)"
    and rn: "run env ops w1 = Some w'"
    by (auto split: outcome.splits option.splits)
  have "P i p" if "op = OpStore p i b" for p i b
    using that Cons.prems(3) [of p i b] by simp
  with Cons.prems(1) ex have c1: "consistentP P w1"
    by (rule exec_consistentP)
  have "P i p" if "OpStore p i b \<in> set ops" for p i b
    using that Cons.prems(3) [of p i b] by simp
  with c1 rn show ?case by (rule Cons.IH)
qed

lemma soleStore_reachable:
  "run noFault [OpStore ''hello'' ''o1'' ''b1''] (emptyStore ''.'') = Some soleStore"
  by (simp add: eval_defs soleStore_def)

lemma exampleStore_reachable:
  "run noFault [OpStore ''a'' ''o1'' ''b'', OpStore ''bbb'' ''o2'' ''b''] (emptyStore ''.'')
     = Some exampleStore"
  by (simp add: eval_defs exampleStore_def fun_upd_twist)

lemma consistent_soleStore: "consistent soleStore"
  unfolding consistent_def
  using consistentP_emptyStore soleStore_reachable by (rule run_consistentP) simp

lemma consistent_exampleStore: "consistent exampleStore"
  unfolding consistent_def
  using consistentP_emptyStore exampleStore_reachable by (rule run_consistentP) simp

lemma Store_returns:
  assumes "consistent w"
  shows "\<exists>w' r. Store noFault (Some p) i b w = Returns (w', r, None)"
proof -
  from assms obtain E where d: "describes (\<lambda>i p. True) E w"
    by (auto simp: consistent_def consistentP_def)
  from Store_describes [OF d, where i = i and p = p and b = b] show ?thesis by auto
qed

lemma Delete_returns:
  assumes "consistent w"
  shows "\<exists>w' r. Delete noFault i b w = Returns (w', r, None)"
proof -
  from assms obtain E where d: "describes (\<lambda>i p. True) E w"
    by (auto simp: consistent_def consistentP_def)
  show ?thesis
  proof (cases "buckets w b")
    case None
    then show ?thesis by (auto simp: Delete_def)
  next
    case (Some bm)
    show ?thesis
    proof (cases "objects bm i")
      case None
      with Some describes_bucket(4) [OF d Some] show ?thesis by (auto simp: Delete_def)
    next
      case oa: (Some a)
      from Delete_describes [OF d Some oa] show ?thesis by blast
    qed
  qed
qed

section \<open>Calls that return an error\<close>

lemma storeObject_error:
  assumes "storeObject env obj objId bucketId ok bm w = Returns (w', r, Some e)"
  shows "w' = w"
  using assms unfolding storeObject_def
  by (auto simp: Let_def split: if_splits option.splits sum.splits prod.splits)

lemma Delete_error:
  assumes "Delete env objId bucketId w = Returns (w', r, Some e)"
  shows "w' = w"
  using assms unfolding Delete_def unlinkObject_def
  by (auto simp: Let_def split: if_splits option.splits sum.splits prod.splits)

lemma Store_error:
  assumes st: "Store env obj objId bucketId w = Returns (w', r, Some e)"
  shows "heap w' = heap w \<and> nextAddr w' = nextAddr w \<and> storePath w' = storePath w
    \<and> (\<forall>c. c \<noteq> bucketId \<longrightarrow> buckets w' c = buckets w c)
    \<and> (\<forall>q. q \<noteq> pathJoin (storePath w) (bucketId @ ''.dat'') \<longrightarrow> disk w' q = disk w q)
    \<and> (case buckets w bucketId of
          Some bm \<Rightarrow> w' = w
        | None \<Rightarrow>
            (\<exists>bm. buckets w' bucketId = Some bm \<and> objects bm = Map.empty \<and> lastObject bm = None
                \<and> filePath bm = pathJoin (storePath w) (bucketId @ ''.dat''))
            \<and> (disk w' (pathJoin (storePath w) (bucketId @ ''.dat''))
                   = disk w (pathJoin (storePath w) (bucketId @ ''.dat''))
                 \<or> disk w' (pathJoin (storePath w) (bucketId @ ''.dat'')) = Some []))"
proof (cases "buckets w bucketId")
  case (Some bm)
  with st have "storeObject env obj objId bucketId True bm w = Returns (w', r, Some e)"
    by (simp add: Store_def)
  then have "w' = w" by (rule storeObject_error)
  with Some show ?thesis by simp
next
  case None
  obtain mu where mu: "bucketIdToMutexIndex bucketId = Inr mu"
    using bucketIdToMutexIndex_Inr by blast
  define path where "path = pathJoin (storePath w) (bucketId @ ''.dat'')"
  define bm where "bm = \<lparr>filePath = path, muIndex = mu, lastObject = None,
     objects = (Map.empty :: string \<rightharpoonup> addr)\<rparr>"
  define w1 where "w1 = w\<lparr>buckets := (buckets w)(bucketId \<mapsto> bm)\<rparr>"
  show ?thesis
  proof (cases "env OpenCreate")
    case True
    with st None mu have "w' = w1"
      by (simp add: Store_def Let_def w1_def bm_def path_def)
    with None show ?thesis by (simp add: w1_def bm_def path_def)
  next
    case False
    with st None mu
    have "storeObject env obj objId bucketId False bm (w1\<lparr>disk := (disk w1)(path \<mapsto> [])\<rparr>)
        = Returns (w', r, Some e)"
      by (simp add: Store_def Let_def w1_def bm_def path_def)
    then have "w' = w1\<lparr>disk := (disk w1)(path \<mapsto> [])\<rparr>" by (rule storeObject_error)
    with None show ?thesis by (simp add: w1_def bm_def path_def)
  qed
qed

lemma Store_TempFile_fails:
  "Store (\<lambda>c. c = TempFile) (Some ''x'') ''o'' ''b'' (emptyStore ''.'')
     = Returns
         ((emptyStore ''.'')
            \<lparr>buckets := [''b'' \<mapsto> \<lparr>filePath = ''b.dat'', muIndex = 45, lastObject = None,
                                      objects = Map.empty\<rparr>],
               disk := [''b.dat'' \<mapsto> []]\<rparr>,
          False, Some ErrIO)"
  by (simp add: Store_def storeObject_def emptyStore_def pathJoin_def bucketIdToMutexIndex_def
      fnvWrite_def fnvOffset32_def fnvPrime32_def numMutexes_def Let_def)

section \<open>Evaluating the loader\<close>

lemmas load_defs = NewStore_def loadDataFromDisk_def loadBucketFiles.simps getObjectsMetadata_def
  getObjectsLoop.simps readString_def discard_def parseInt_def parseUint_def isDigit_def
  digitVal_def add64_def bucketIdOfPath_def bucketIdToMutexIndex_def fnvWrite_def fnvOffset32_def
  fnvPrime32_def numMutexes_def emptyStore_def emptyNode_def noFault_def Let_def

section \<open>The effect of a replacement\<close>

lemma Store_replace_effect:
  assumes c: "consistent w" and bk: "buckets w b = Some bm" and oa: "objects bm i = Some a"
    and st: "Store env (Some p) i b w = Returns (w', r, None)"
  obtains E es1 p0 es2 where "describes (\<lambda>i p. True) E w" "E b = es1 @ (a, i, p0) # es2"
    "describes (\<lambda>i p. True) (E(b := es1 @ (a, i, p) # es2)) w'" "buckets w' = buckets w" "r"
proof -
  from c obtain E where d: "describes (\<lambda>i p. True) E w"
    by (auto simp: consistent_def consistentP_def)
  from bucketRep_lookup [OF describes_bucket(1) [OF d bk] oa]
  obtain es1 p0 es2 where eb: "E b = es1 @ (a, i, p0) # es2" by blast
  from Store_replace [OF d bk eb, of p] Store_noFault [OF st]
  have "describes (\<lambda>i p. True) (E(b := es1 @ (a, i, p) # es2)) w'" "buckets w' = buckets w" "r"
    by auto
  with d eb show ?thesis by (rule that)
qed

lemma bucketRep_offset:
  assumes "bucketRep h bm (xs @ (c, j, q) # ys)"
  shows "offset (h c) = int (length (fileOf xs))"
  using assms by (rule bucketRep_node(1))

section \<open>Decimal lengths\<close>













section \<open>Loading what was stored\<close>






section \<open>The loader rebuilds the description\<close>


lemma length_renumber: "length (renumber na es) = length es"
  by (induction es arbitrary: na) auto










section \<open>Round trip\<close>

text \<open>
  C1. On a consistent store and with no failing system call, \<open>Store\<close> of any byte
  sequence \<open>p\<close> (empty or not, whatever its bytes) under any identifiers returns a nil
  error, and \<open>Retrieve\<close> of the same identifiers then returns \<open>p\<close>, found, and a nil
  error.
\<close>

theorem Store_then_Retrieve:
  assumes "consistent w"
  shows "\<exists>w' replaced. Store noFault (Some p) objId bucketId w = Returns (w', replaced, None)
           \<and> Retrieve noFault objId bucketId w' = Returns (Some p, True, None)"
proof -
  from assms obtain E where d: "describes (\<lambda>i p. True) E w"
    by (auto simp: consistent_def consistentP_def)
  from Store_describes [OF d, where i = objId and p = p and b = bucketId]
  obtain w' r es1 a es2 where st: "Store noFault (Some p) objId bucketId w = Returns (w', r, None)"
    and d': "describes (\<lambda>i p. True) (E(bucketId := es1 @ (a, objId, p) # es2)) w'"
    and bk: "buckets w' bucketId \<noteq> None"
    by auto
  from bk obtain bm where "buckets w' bucketId = Some bm" by auto
  from Retrieve_describes [OF d' this, of es1 a objId p es2] st show ?thesis by auto
qed

theorem Store_then_Retrieve_witness:
  "consistent exampleStore
   \<and> (\<exists>w' replaced.
        Store noFault (Some ''x y\<newline>z'') ''o1'' ''b'' exampleStore = Returns (w', replaced, None)
        \<and> Retrieve noFault ''o1'' ''b'' w' = Returns (Some ''x y\<newline>z'', True, None))"
  using consistent_exampleStore Store_then_Retrieve [OF consistent_exampleStore] by blast

section \<open>Errors and mutation\<close>

text \<open>
  C2, as stated, fails: \<open>Store\<close> into a bucket that is not registered creates the bucket's
  entry and its empty file before it opens the temporary file, so when \<open>ioutil.TempFile\<close>
  fails the call returns an error and has changed both the registry and the disk.
\<close>

theorem error_mutates_counterexample:
  "Store (\<lambda>c. c = TempFile) (Some ''x'') ''o'' ''b'' (emptyStore ''.'')
     = Returns
         ((emptyStore ''.'')
            \<lparr>buckets := [''b'' \<mapsto> \<lparr>filePath = ''b.dat'', muIndex = 45, lastObject = None,
                                      objects = Map.empty\<rparr>],
               disk := [''b.dat'' \<mapsto> []]\<rparr>,
          False, Some ErrIO)
   \<and> buckets (emptyStore ''.'') ''b'' = None \<and> disk (emptyStore ''.'') ''b.dat'' = None"
proof -
  have "buckets (emptyStore ''.'') ''b'' = None" "disk (emptyStore ''.'') ''b.dat'' = None"
    by (simp_all add: emptyStore_def)
  with Store_TempFile_fails show ?thesis by blast
qed

text \<open>
  C2, amended. When \<open>Store\<close> returns an error, the heap of metadata nodes, the entries
  of the other buckets and the files of the other buckets are as before; if the bucket
  was registered nothing at all has changed; if it was not, the registry has gained an
  entry for it with no objects, and its file is as before or empty. When \<open>Delete\<close>
  returns an error nothing has changed. \<open>Retrieve\<close> returns no store: it only reads.
\<close>

theorem error_leaves_objects_untouched:
  "(Store env obj objId bucketId w = Returns (w', r, Some e) \<longrightarrow>
      heap w' = heap w \<and> nextAddr w' = nextAddr w \<and> storePath w' = storePath w
      \<and> (\<forall>c. c \<noteq> bucketId \<longrightarrow> buckets w' c = buckets w c)
      \<and> (\<forall>q. q \<noteq> pathJoin (storePath w) (bucketId @ ''.dat'') \<longrightarrow> disk w' q = disk w q)
      \<and> (case buckets w bucketId of
            Some bm \<Rightarrow> w' = w
          | None \<Rightarrow>
              (\<exists>bm. buckets w' bucketId = Some bm \<and> objects bm = Map.empty
                  \<and> lastObject bm = None
                  \<and> filePath bm = pathJoin (storePath w) (bucketId @ ''.dat''))
              \<and> (disk w' (pathJoin (storePath w) (bucketId @ ''.dat''))
                     = disk w (pathJoin (storePath w) (bucketId @ ''.dat''))
                   \<or> disk w' (pathJoin (storePath w) (bucketId @ ''.dat'')) = Some [])))
   \<and> (Delete env objId bucketId w = Returns (w', r, Some e) \<longrightarrow> w' = w)"
  using Store_error [of env obj objId bucketId w w' r e]
    Delete_error [of env objId bucketId w w' r e]
  by blast

theorem error_leaves_objects_untouched_witness:
  "(\<exists>w' r e. Store (\<lambda>c. c = TempFile) (Some ''x'') ''o'' ''b'' (emptyStore ''.'') = Returns (w', r, Some e)
       \<and> heap w' = heap (emptyStore ''.'')
       \<and> (\<exists>bm. buckets w' ''b'' = Some bm \<and> objects bm = Map.empty \<and> lastObject bm = None))
   \<and> (\<exists>w' r e. Store (\<lambda>c. c = Rename) (Some ''cc'') ''o1'' ''b'' exampleStore = Returns (w', r, Some e)
       \<and> w' = exampleStore)
   \<and> (\<exists>w' r e. Delete (\<lambda>c. c = Rename) ''o1'' ''b'' exampleStore = Returns (w', r, Some e)
       \<and> w' = exampleStore)"
proof -
  define w1 where "w1 = (emptyStore ''.'')
     \<lparr>buckets := [''b'' \<mapsto> \<lparr>filePath = ''b.dat'', muIndex = 45, lastObject = None,
                               objects = Map.empty\<rparr>],
        disk := [''b.dat'' \<mapsto> []]\<rparr>"
  have u: "Store (\<lambda>c. c = TempFile) (Some ''x'') ''o'' ''b'' (emptyStore ''.'')
      = Returns (w1, False, Some ErrIO)"
    unfolding w1_def by (rule Store_TempFile_fails)
  have s: "Store (\<lambda>c. c = Rename) (Some ''cc'') ''o1'' ''b'' exampleStore
      = Returns (exampleStore, False, Some ErrIO)"
    by (simp add: eval_defs exampleStore_def)
  have t: "Delete (\<lambda>c. c = Rename) ''o1'' ''b'' exampleStore
      = Returns (exampleStore, False, Some ErrIO)"
    by (simp add: eval_defs exampleStore_def)
  have nb: "buckets (emptyStore ''.'') ''b'' = None" by (simp add: emptyStore_def)
  from error_leaves_objects_untouched [of "\<lambda>c. c = TempFile" "Some ''x''" "''o''" "''b''"
      "emptyStore ''.''" w1 False ErrIO] u
  have "heap w1 = heap (emptyStore ''.'')
      \<and> (\<exists>bm. buckets w1 ''b'' = Some bm \<and> objects bm = Map.empty \<and> lastObject bm = None)"
    by (simp add: nb) blast
  with u have a: "\<exists>w' r e. Store (\<lambda>c. c = TempFile) (Some ''x'') ''o'' ''b'' (emptyStore ''.'') = Returns (w', r, Some e)
       \<and> heap w' = heap (emptyStore ''.'')
       \<and> (\<exists>bm. buckets w' ''b'' = Some bm \<and> objects bm = Map.empty \<and> lastObject bm = None)"
    by blast
  from s t have b: "(\<exists>w' r e. Store (\<lambda>c. c = Rename) (Some ''cc'') ''o1'' ''b'' exampleStore = Returns (w', r, Some e)
       \<and> w' = exampleStore)"
    "(\<exists>w' r e. Delete (\<lambda>c. c = Rename) ''o1'' ''b'' exampleStore = Returns (w', r, Some e)
       \<and> w' = exampleStore)"
    by blast+
  from a b show ?thesis by blast
qed

section \<open>Replacing an object\<close>

text \<open>
  C3, as stated, fails: replacing the one-byte object \<open>o1\<close> of the example store, which
  lies before \<open>o2\<close>, by two bytes leaves the record of \<open>o1\<close> at offset 0, followed by the
  record of \<open>o2\<close>; it has not moved to the end of the file.
\<close>

theorem replaced_record_not_moved_counterexample:
  "Store noFault (Some ''cc'') ''o1'' ''b'' exampleStore
     = Returns
         (exampleStore
            \<lparr>disk := [''b.dat'' \<mapsto> ''o1 2 cc\<newline>o2 3 bbb\<newline>''],
               heap := (\<lambda>a. emptyNode)
                 (0 := \<lparr>offset = 0, size' = 2, metaSize = 4, prev = None, next = Some 1\<rparr>,
                  1 := \<lparr>offset = 8, size' = 3, metaSize = 4, prev = Some 0, next = None\<rparr>)\<rparr>,
          True, None)
   \<and> size' (heap exampleStore 0) = 1 \<and> objects (the (buckets exampleStore ''b'')) ''o1'' = Some 0"
  by (simp add: eval_defs exampleStore_def shiftOffsets.simps fun_upd_twist)

text \<open>
  C3, amended. When a \<open>Store\<close> that returns a nil error replaces an object of a
  consistent store, the object keeps its node, its offset and its neighbours in the
  chain whether or not its size changes, and the new record stands at that offset in the
  bucket file.
\<close>

theorem replaced_object_keeps_offset:
  assumes "consistent w" and "buckets w bucketId = Some bm" and "objects bm objId = Some a"
    and "Store env (Some p) objId bucketId w = Returns (w', replaced, None)"
  shows "replaced \<and> buckets w' = buckets w
    \<and> offset (heap w' a) = offset (heap w a)
    \<and> prev (heap w' a) = prev (heap w a) \<and> next (heap w' a) = next (heap w a)
    \<and> size' (heap w' a) = int (length p)
    \<and> (\<exists>f. disk w' (filePath bm) = Some f
          \<and> take (length (encodeRecord objId p)) (drop (nat (offset (heap w a))) f)
              = encodeRecord objId p)"
proof -
  from assms obtain E es1 p0 es2 where d: "describes (\<lambda>i p. True) E w"
    and eb: "E bucketId = es1 @ (a, objId, p0) # es2"
    and d': "describes (\<lambda>i p. True) (E(bucketId := es1 @ (a, objId, p) # es2)) w'"
    and bs: "buckets w' = buckets w" and r: "replaced"
    by (rule Store_replace_effect)
  have rep: "bucketRep (heap w) bm (es1 @ (a, objId, p0) # es2)"
    using describes_bucket(1) [OF d assms(2)] by (simp add: eb)
  from assms(2) bs have bk': "buckets w' bucketId = Some bm" by simp
  have rep': "bucketRep (heap w') bm (es1 @ (a, objId, p) # es2)"
    using describes_bucket(1) [OF d' bk'] by simp
  note nd = bucketRep_node [OF rep] and nd' = bucketRep_node [OF rep']
  have f: "disk w' (filePath bm) = Some (fileOf es1 @ encodeRecord objId p @ fileOf es2)"
    using describes_bucket(2) [OF d' bk'] by (simp add: fileOf_append)
  have "take (length (encodeRecord objId p)) (drop (nat (offset (heap w a)))
      (fileOf es1 @ encodeRecord objId p @ fileOf es2)) = encodeRecord objId p"
    by (simp add: nd(1))
  with f r bs nd(1,4,5) nd'(1,3,4,5) show ?thesis by simp
qed

theorem replaced_object_keeps_offset_witness:
  "consistent exampleStore
   \<and> (\<exists>w' replaced. Store noFault (Some ''cc'') ''o1'' ''b'' exampleStore = Returns (w', replaced, None)
        \<and> replaced \<and> size' (heap exampleStore 0) = 1 \<and> size' (heap w' 0) = 2
        \<and> offset (heap w' 0) = 0 \<and> next (heap w' 0) = Some 1)"
proof -
  have bk: "buckets exampleStore ''b'' = Some \<lparr>filePath = ''b.dat'', muIndex = 45,
      lastObject = Some 1, objects = [''o1'' \<mapsto> 0, ''o2'' \<mapsto> 1]\<rparr>"
    by (simp add: exampleStore_def)
  have oa: "objects \<lparr>filePath = ''b.dat'', muIndex = 45, lastObject = Some 1,
      objects = [''o1'' \<mapsto> 0, ''o2'' \<mapsto> 1::addr]\<rparr> ''o1'' = Some 0"
    by simp
  have h: "size' (heap exampleStore 0) = 1" "offset (heap exampleStore 0) = 0"
    "next (heap exampleStore 0) = Some 1"
    by (simp_all add: exampleStore_def)
  from Store_returns [OF consistent_exampleStore, of "''cc''" "''o1''" "''b''"]
  obtain w' r where st: "Store noFault (Some ''cc'') ''o1'' ''b'' exampleStore = Returns (w', r, None)"
    by blast
  from replaced_object_keeps_offset [OF consistent_exampleStore bk oa st] h
  have "r \<and> size' (heap exampleStore 0) = 1 \<and> size' (heap w' 0) = 2
        \<and> offset (heap w' 0) = 0 \<and> next (heap w' 0) = Some 1"
    by simp
  with st consistent_exampleStore show ?thesis by blast
qed

section \<open>The other objects of the bucket\<close>

text \<open>
  C4. When a \<open>Store\<close> that returns a nil error replaces the object \<open>objId\<close> of a
  consistent store, every other object \<open>other\<close> of the bucket keeps its node, and the
  offset recorded there is unchanged if the new record is as long as the old one or if
  the object lies before the replaced one, and is moved by exactly the length of the new
  record minus the length of the old one if the object lies after it.
\<close>

theorem other_offsets_after_replace:
  assumes "consistent w" and "buckets w bucketId = Some bm" and "objects bm objId = Some a"
    and "objects bm other = Some c" and "other \<noteq> objId"
    and "Store env (Some p) objId bucketId w = Returns (w', replaced, None)"
  shows "buckets w' = buckets w
    \<and> (int (length (encodeRecord objId p)) = metaSize (heap w a) + size' (heap w a) + 2
         \<longrightarrow> offset (heap w' c) = offset (heap w c))
    \<and> (offset (heap w c) < offset (heap w a) \<longrightarrow> offset (heap w' c) = offset (heap w c))
    \<and> (offset (heap w a) < offset (heap w c) \<longrightarrow>
          offset (heap w' c) = offset (heap w c)
            + (int (length (encodeRecord objId p)) - (metaSize (heap w a) + size' (heap w a) + 2)))
    \<and> offset (heap w c) \<noteq> offset (heap w a)"
proof -
  from assms(1,2,3,6) obtain E es1 p0 es2 where d: "describes (\<lambda>i p. True) E w"
    and eb: "E bucketId = es1 @ (a, objId, p0) # es2"
    and d': "describes (\<lambda>i p. True) (E(bucketId := es1 @ (a, objId, p) # es2)) w'"
    and bs: "buckets w' = buckets w" and r: "replaced"
    by (rule Store_replace_effect)
  have rep: "bucketRep (heap w) bm (es1 @ (a, objId, p0) # es2)"
    using describes_bucket(1) [OF d assms(2)] by (simp add: eb)
  from assms(2) bs have bk': "buckets w' bucketId = Some bm" by simp
  have rep': "bucketRep (heap w') bm (es1 @ (a, objId, p) # es2)"
    using describes_bucket(1) [OF d' bk'] by simp
  note nd = bucketRep_node [OF rep]
  have old: "metaSize (heap w a) + size' (heap w a) + 2 = int (recordSize objId (length p0))"
    by (simp add: nd(2,3) recordSize_def)
  from bucketRep_lookup [OF rep assms(4)] obtain l q rr
    where "es1 @ (a, objId, p0) # es2 = l @ (c, other, q) # rr" by blast
  then have "(c, other, q) \<in> set (es1 @ (a, objId, p0) # es2)" by simp
  with assms(5) have "(c, other, q) \<in> set es1 \<or> (c, other, q) \<in> set es2" by auto
  then show ?thesis
  proof
    assume "(c, other, q) \<in> set es1"
    then obtain xs ys where e1: "es1 = xs @ (c, other, q) # ys" by (auto dest: split_list)
    have "bucketRep (heap w) bm (xs @ (c, other, q) # (ys @ (a, objId, p0) # es2))"
      using rep by (simp add: e1)
    then have o: "offset (heap w c) = int (length (fileOf xs))" by (rule bucketRep_offset)
    have "bucketRep (heap w') bm (xs @ (c, other, q) # (ys @ (a, objId, p) # es2))"
      using rep' by (simp add: e1)
    then have o': "offset (heap w' c) = int (length (fileOf xs))" by (rule bucketRep_offset)
    have "offset (heap w c) < offset (heap w a)"
      by (simp add: o nd(1) e1 fileOf_append length_encodeRecord recordSize_def)
    with o o' bs show ?thesis by simp
  next
    assume "(c, other, q) \<in> set es2"
    then obtain xs ys where e2: "es2 = xs @ (c, other, q) # ys" by (auto dest: split_list)
    have "bucketRep (heap w) bm ((es1 @ (a, objId, p0) # xs) @ (c, other, q) # ys)"
      using rep by (simp add: e2)
    then have o: "offset (heap w c) = int (length (fileOf (es1 @ (a, objId, p0) # xs)))"
      by (rule bucketRep_offset)
    have "bucketRep (heap w') bm ((es1 @ (a, objId, p) # xs) @ (c, other, q) # ys)"
      using rep' by (simp add: e2)
    then have o': "offset (heap w' c) = int (length (fileOf (es1 @ (a, objId, p) # xs)))"
      by (rule bucketRep_offset)
    have "offset (heap w a) < offset (heap w c)"
      by (simp add: o nd(1) fileOf_append length_encodeRecord recordSize_def)
    with o o' bs old show ?thesis
      by (simp add: fileOf_append length_encodeRecord)
  qed
qed

theorem other_offsets_after_replace_witness:
  "consistent exampleStore
   \<and> (\<exists>w' replaced. Store noFault (Some ''cc'') ''o1'' ''b'' exampleStore = Returns (w', replaced, None)
        \<and> offset (heap exampleStore 1) = 7 \<and> offset (heap w' 1) = 8)
   \<and> (\<exists>w' replaced. Store noFault (Some ''z'') ''o1'' ''b'' exampleStore = Returns (w', replaced, None)
        \<and> offset (heap w' 1) = 7)
   \<and> (\<exists>w' replaced. Store noFault (Some ''cc'') ''o2'' ''b'' exampleStore = Returns (w', replaced, None)
        \<and> offset (heap w' 0) = 0)"
proof -
  have bk: "buckets exampleStore ''b'' = Some \<lparr>filePath = ''b.dat'', muIndex = 45,
      lastObject = Some 1, objects = [''o1'' \<mapsto> 0, ''o2'' \<mapsto> 1]\<rparr>"
    by (simp add: exampleStore_def)
  have oa: "objects \<lparr>filePath = ''b.dat'', muIndex = 45, lastObject = Some 1,
      objects = [''o1'' \<mapsto> 0, ''o2'' \<mapsto> 1::addr]\<rparr> ''o1'' = Some 0"
    "objects \<lparr>filePath = ''b.dat'', muIndex = 45, lastObject = Some 1,
      objects = [''o1'' \<mapsto> 0, ''o2'' \<mapsto> 1::addr]\<rparr> ''o2'' = Some 1"
    by simp_all
  have ne: "''o2'' \<noteq> ''o1''" "''o1'' \<noteq> ''o2''" by simp_all
  have h: "offset (heap exampleStore 0) = 0" "offset (heap exampleStore 1) = 7"
    "metaSize (heap exampleStore 0) = 4" "size' (heap exampleStore 0) = 1"
    "metaSize (heap exampleStore 1) = 4" "size' (heap exampleStore 1) = 3"
    by (simp_all add: exampleStore_def)
  have l: "length (encodeRecord ''o1'' ''cc'') = 8" "length (encodeRecord ''o1'' ''z'') = 7"
    by (simp_all add: encodeRecord_def itoa.simps)
  from Store_returns [OF consistent_exampleStore, of "''cc''" "''o1''" "''b''"]
  obtain w1 r1 where s1: "Store noFault (Some ''cc'') ''o1'' ''b'' exampleStore = Returns (w1, r1, None)"
    by blast
  from Store_returns [OF consistent_exampleStore, of "''z''" "''o1''" "''b''"]
  obtain w2 r2 where s2: "Store noFault (Some ''z'') ''o1'' ''b'' exampleStore = Returns (w2, r2, None)"
    by blast
  from Store_returns [OF consistent_exampleStore, of "''cc''" "''o2''" "''b''"]
  obtain w3 r3 where s3: "Store noFault (Some ''cc'') ''o2'' ''b'' exampleStore = Returns (w3, r3, None)"
    by blast
  from other_offsets_after_replace [OF consistent_exampleStore bk oa(1) oa(2) ne(1) s1] h l
  have "offset (heap w1 1) = 8" by simp
  moreover
  from other_offsets_after_replace [OF consistent_exampleStore bk oa(1) oa(2) ne(1) s2] h l
  have "offset (heap w2 1) = 7" by simp
  moreover
  from other_offsets_after_replace [OF consistent_exampleStore bk oa(2) oa(1) ne(2) s3] h
  have "offset (heap w3 0) = 0" by simp
  ultimately show ?thesis using s1 s2 s3 h(2) consistent_exampleStore by blast
qed

section \<open>Deleting the sole object of a bucket\<close>

text \<open>
  When \<open>os.Remove\<close> succeeds, \<open>Delete\<close> of the only object of a bucket of a consistent
  store removes the bucket's file and its registry entry and leaves the other buckets'
  entries alone, and every later \<open>Retrieve\<close> on that bucket finds nothing.
\<close>

lemma Delete_sole_removed:
  assumes "consistent w" and "buckets w bucketId = Some bm" and "dom (objects bm) = {objId}"
    and "\<not> env Remove"
  shows "\<exists>w'. Delete env objId bucketId w = Returns (w', True, None)
           \<and> buckets w' bucketId = None \<and> disk w' (filePath bm) = None
           \<and> (\<forall>c. c \<noteq> bucketId \<longrightarrow> buckets w' c = buckets w c)
           \<and> (\<forall>env' i. Retrieve env' i bucketId w' = Returns (None, False, None))"
proof -
  from assms(1) obtain E where d: "describes (\<lambda>i p. True) E w"
    by (auto simp: consistent_def consistentP_def)
  note bd = describes_bucket [OF d assms(2)]
  from assms(3) obtain a where oa: "objects bm objId = Some a" by auto
  from assms(3) have c1: "card (dom (objects bm)) = 1" by simp
  define w' where "w' = w\<lparr>disk := (disk w)(filePath bm := None),
     buckets := (buckets w)(bucketId := None)\<rparr>"
  have "Delete env objId bucketId w = Returns (w', True, None)"
    unfolding Delete_def by (simp add: assms(2,4) bd(2,4) oa c1 w'_def)
  moreover have "Retrieve env' i bucketId w' = Returns (None, False, None)" for env' i
    by (simp add: Retrieve_def w'_def)
  ultimately show ?thesis by (intro exI [of _ w']) (simp add: w'_def)
qed

text \<open>
  C5. The store \<open>soleStore\<close> is consistent and holds the single object \<open>o1\<close> of bucket
  \<open>b1\<close>. When \<open>os.Remove\<close> fails, \<open>Delete\<close> of that object drops the error and returns
  deleted with a nil error, yet the store is unchanged: the bucket's file and its
  registry entry are still there, and a later \<open>Retrieve\<close> on the bucket still finds the
  object and returns its payload.
\<close>

theorem Delete_sole_object_Remove_fails:
  "dom (objects (the (buckets soleStore ''b1''))) = {''o1''}
   \<and> Delete (\<lambda>c. c = Remove) ''o1'' ''b1'' soleStore = Returns (soleStore, True, None)
   \<and> buckets soleStore ''b1'' \<noteq> None
   \<and> disk soleStore ''b1.dat'' = Some ''o1 5 hello\<newline>''
   \<and> Retrieve noFault ''o1'' ''b1'' soleStore = Returns (Some ''hello'', True, None)"
  by (simp add: eval_defs soleStore_def)
section \<open>Deleting twice\<close>

text \<open>
  When no system call of the first \<open>Delete\<close> fails, a stored object of a consistent store
  is deleted, and a second \<open>Delete\<close> of the same identifiers, whatever the system calls
  do, returns not deleted with a nil error and changes nothing.
\<close>

lemma Delete_again:
  assumes "consistent w" and "buckets w bucketId = Some bm" and "objects bm objId = Some a"
  shows "\<exists>w'. Delete noFault objId bucketId w = Returns (w', True, None)
           \<and> (\<forall>env. Delete env objId bucketId w' = Returns (w', False, None))"
proof -
  from assms(1) obtain E where d: "describes (\<lambda>i p. True) E w"
    by (auto simp: consistent_def consistentP_def)
  from Delete_describes [OF d assms(2,3)]
  obtain w' es' where st: "Delete noFault objId bucketId w = Returns (w', True, None)"
    and d': "describes (\<lambda>i p. True) (E(bucketId := es')) w'"
    and c: "case buckets w' bucketId of None \<Rightarrow> disk w' (filePath bm) = None
             | Some bm' \<Rightarrow> objects bm' objId = None \<and> card (dom (objects bm)) \<noteq> 1"
    by blast
  have "Delete env objId bucketId w' = Returns (w', False, None)" for env
  proof (cases "buckets w' bucketId")
    case None
    then show ?thesis by (simp add: Delete_def)
  next
    case (Some bm')
    with c describes_bucket(4) [OF d' Some] show ?thesis by (simp add: Delete_def)
  qed
  with st show ?thesis by blast
qed

text \<open>
  C6. On \<open>soleStore\<close>, with \<open>os.Remove\<close> failing, the first \<open>Delete\<close> of the stored object
  \<open>o1\<close> of bucket \<open>b1\<close> returns deleted with a nil error, and a second \<open>Delete\<close> of the
  same identifiers, on the store the first one returned, returns deleted with a nil error
  once more rather than not deleted.
\<close>

theorem Delete_twice_Remove_fails:
  "\<exists>w'. Delete (\<lambda>c. c = Remove) ''o1'' ''b1'' soleStore = Returns (w', True, None)
      \<and> Delete (\<lambda>c. c = Remove) ''o1'' ''b1'' w' = Returns (w', True, None)
      \<and> Delete (\<lambda>c. c = Remove) ''o1'' ''b1'' w' \<noteq> Returns (w', False, None)"
proof -
  have "Delete (\<lambda>c. c = Remove) ''o1'' ''b1'' soleStore = Returns (soleStore, True, None)"
    by (simp add: eval_defs soleStore_def)
  then show ?thesis by simp
qed
section \<open>Malformed bucket files\<close>

text \<open>
  C7. The loader does not fail on every malformed file. A bucket file that ends in the
  bytes of a truncated record with no space in them loads without error, and the bytes
  are ignored; a file that holds nothing but such bytes loads without error, yields no
  bucket, and is deleted; a record whose length field is \<open>-1\<close>, with no payload and no
  terminator after it, loads as an object of size \<open>-1\<close>.
\<close>

theorem trailing_bytes_dropped:
  "NewStore noFault ''.'' True [''b.dat''] [''b.dat'' \<mapsto> ''o1 1 a\<newline>xyz'']
     = Inr \<lparr>storePath = ''.'',
             buckets = [''b'' \<mapsto> \<lparr>filePath = ''b.dat'', muIndex = 45, lastObject = Some 0,
                                   objects = [''o1'' \<mapsto> 0]\<rparr>],
             heap = (\<lambda>a. emptyNode)
                      (0 := \<lparr>offset = 0, size' = 1, metaSize = 4, prev = None, next = None\<rparr>),
             nextAddr = 1,
             disk = [''b.dat'' \<mapsto> ''o1 1 a\<newline>xyz'']\<rparr>
   \<and> NewStore noFault ''.'' True [''b.dat''] [''b.dat'' \<mapsto> ''xyz'']
     = Inr \<lparr>storePath = ''.'', buckets = Map.empty, heap = (\<lambda>a. emptyNode), nextAddr = 0,
             disk = Map.empty\<rparr>
   \<and> NewStore noFault ''.'' True [''b.dat''] [''b.dat'' \<mapsto> ''o1 -1 '']
     = Inr \<lparr>storePath = ''.'',
             buckets = [''b'' \<mapsto> \<lparr>filePath = ''b.dat'', muIndex = 45, lastObject = Some 0,
                                   objects = [''o1'' \<mapsto> 0]\<rparr>],
             heap = (\<lambda>a. emptyNode)
                      (0 := \<lparr>offset = 0, size' = - 1, metaSize = 5, prev = None, next = None\<rparr>),
             nextAddr = 1,
             disk = [''b.dat'' \<mapsto> ''o1 -1 '']\<rparr>"
  by (simp add: load_defs)

section \<open>Reload fidelity\<close>


section \<open>The layout invariant\<close>

text \<open>
  C9. Consistency of the store is kept by every \<open>Store\<close> of a byte sequence and every
  \<open>Delete\<close> that returns a nil error, whatever the system calls do, and a consistent
  store satisfies the layout invariant: in every bucket, a node with a next node ends
  where the next one starts (its offset plus its header size plus its payload size plus
  2), and a node with no previous node has offset 0.
\<close>

theorem operations_keep_layout:
  assumes "consistent w" and "exec env op w = Returns (w', r, None)"
  shows "consistent w' \<and> layout w'"
proof -
  from assms have c: "consistent w'"
    unfolding consistent_def by (rule exec_consistentP) simp
  then obtain E where "describes (\<lambda>i p. True) E w'"
    by (auto simp: consistent_def consistentP_def)
  then have "layout w'" by (rule describes_layout)
  with c show ?thesis by simp
qed

theorem operations_keep_layout_witness:
  "consistent exampleStore
   \<and> (\<exists>w' r. exec noFault (OpStore ''cc'' ''o1'' ''b'') exampleStore = Returns (w', r, None)
          \<and> consistent w' \<and> layout w')
   \<and> (\<exists>w' r. exec noFault (OpDelete ''o1'' ''b'') exampleStore = Returns (w', r, None)
          \<and> consistent w' \<and> layout w')"
proof -
  from Store_returns [OF consistent_exampleStore, of "''cc''" "''o1''" "''b''"]
  obtain w1 r1 where s: "exec noFault (OpStore ''cc'' ''o1'' ''b'') exampleStore = Returns (w1, r1, None)"
    by auto
  from Delete_returns [OF consistent_exampleStore, of "''o1''" "''b''"]
  obtain w2 r2 where t: "exec noFault (OpDelete ''o1'' ''b'') exampleStore = Returns (w2, r2, None)"
    by auto
  from operations_keep_layout [OF consistent_exampleStore s]
    operations_keep_layout [OF consistent_exampleStore t] s t consistent_exampleStore
  show ?thesis by blast
qed

section \<open>The stripe index is in bounds\<close>

text \<open>
  C10. For every bucket identifier, \<open>bucketIdToMutexIndex\<close> takes the branch that
  returns the hash modulo the number of locks, never an error branch, since the hash
  consumes every byte and reports no error; being a function of the identifier alone the
  result is the same on every call, and it is below \<open>numMutexes\<close>, so it indexes the lock
  array within bounds.
\<close>

theorem bucketIdToMutexIndex_in_bounds:
  "bucketIdToMutexIndex bucketId
     = Inr (fst (fnvWrite fnvOffset32 bucketId) mod word_of_nat numMutexes)
   \<and> unat (fst (fnvWrite fnvOffset32 bucketId) mod word_of_nat numMutexes) < numMutexes
   \<and> numMutexes = 100"
  by (simp add: bucketIdToMutexIndex_def fnvWrite_def numMutexes_def unat_mod)

end
